theory Spec2Isabelle
  imports Complex_Main
begin

section \<open>Data model of \<open>make_maze.py\<close>\<close>

text \<open>
  The class \<open>MazeGenerator\<close> becomes a record holding the attributes that \<open>__init__\<close>
  sets. Python integers are \<open>int\<close>; the cell size is a float in the program and an exact
  real number here. The two wall matrices are lists of rows, as in the program:
  \<open>horizontal_walls\<close> has \<open>grid_size + 1\<close> rows of \<open>grid_size\<close> entries and
  \<open>vertical_walls\<close> has \<open>grid_size\<close> rows of \<open>grid_size + 1\<close> entries.
\<close>

record maze =
  grid_size :: int
  cell_size :: real
  min_walls :: int
  output_file :: string
  wall_height :: real
  wall_thickness :: real
  horizontal_walls :: "bool list list"
  vertical_walls :: "bool list list"

text \<open>
  \<open>__init__\<close>. \<open>[True] * n\<close> and \<open>range(n)\<close> are empty for \<open>n \<le> 0\<close>, which is what
  \<open>replicate (nat n)\<close> gives.
\<close>

definition MazeGenerator :: "int \<Rightarrow> real \<Rightarrow> int \<Rightarrow> string \<Rightarrow> maze" where
  "MazeGenerator gs cs mw out =
     \<lparr> grid_size = gs, cell_size = cs, min_walls = mw, output_file = out,
       wall_height = 0.5, wall_thickness = 0.05,
       horizontal_walls = replicate (nat (gs + 1)) (replicate (nat gs) True),
       vertical_walls = replicate (nat gs) (replicate (nat (gs + 1)) True) \<rparr>"

text \<open>
  \<open>mat[row][col]\<close> and \<open>mat[row][col] = v\<close> on a list of rows. Every access the program
  makes is guarded so that \<open>0 \<le> row\<close>, \<open>0 \<le> col\<close> and both lie inside the matrix as
  \<open>__init__\<close> allocated it (the predicate \<open>shaped\<close> below) when \<open>grid_size \<ge> 1\<close>, and a
  run with \<open>grid_size \<le> 0\<close> raises \<open>ValueError\<close> before its first access. The theorems are
  about mazes of that shape with \<open>grid_size \<ge> 1\<close>, where the value HOL gives to an
  out-of-range read is never used; \<open>IndexError\<close> is therefore not among the modelled errors.
\<close>

definition entry :: "'a list list \<Rightarrow> int \<Rightarrow> int \<Rightarrow> 'a" where
  "entry mat row col = mat ! nat row ! nat col"

definition assign :: "'a list list \<Rightarrow> int \<Rightarrow> int \<Rightarrow> 'a \<Rightarrow> 'a list list" where
  "assign mat row col v = mat[nat row := (mat ! nat row)[nat col := v]]"

definition shaped :: "maze \<Rightarrow> bool" where
  "shaped m \<longleftrightarrow>
     length (horizontal_walls m) = nat (grid_size m + 1) \<and>
     (\<forall>r \<in> set (horizontal_walls m). length r = nat (grid_size m)) \<and>
     length (vertical_walls m) = nat (grid_size m) \<and>
     (\<forall>r \<in> set (vertical_walls m). length r = nat (grid_size m + 1))"

section \<open>Random source\<close>

text \<open>
  The program draws from Python's global \<open>random\<close> module. The model threads the
  stream of raw draws explicitly: a list of naturals, read from the front, continued by
  zeros when it runs out. \<open>randbelow n\<close> (for \<open>n > 0\<close>) reduces a draw modulo \<open>n\<close>;
  \<open>randint a b\<close> is \<open>a + randbelow (b - a + 1)\<close> and raises \<open>ValueError\<close> on an
  empty range; \<open>shuffle\<close> is the library's in-place loop
  \<open>for i in reversed(range(1, len(x))): j = randbelow(i + 1); x[i], x[j] = x[j], x[i]\<close>.
  Every value \<open>randint\<close> can return and every permutation \<open>shuffle\<close> can produce arises
  from some draw list, so a theorem for all draw lists covers every random choice.

  \<open>RecursionError\<close> is raised when \<open>_dfs_carve\<close> nests deeper than the interpreter
  allows. The number of nested \<open>_dfs_carve\<close> calls the interpreter can still carry
  (each with the library calls it makes) is a parameter of the model; an error result
  carries no state, so where exactly inside the deepest call the error is raised makes no
  difference.
\<close>

datatype error = ValueError | RecursionError

type_synonym rng = "nat list"

definition randbelow :: "nat \<Rightarrow> rng \<Rightarrow> nat \<times> rng" where
  "randbelow n rs = (case rs of [] \<Rightarrow> (0, []) | r # rs' \<Rightarrow> (r mod n, rs'))"

definition randint :: "int \<Rightarrow> int \<Rightarrow> rng \<Rightarrow> error + (int \<times> rng)" where
  "randint a b rs =
     (if b < a then Inl ValueError
      else (let (k, rs') = randbelow (nat (b - a + 1)) rs in Inr (a + int k, rs')))"

fun shuffle_loop :: "nat \<Rightarrow> 'a list \<Rightarrow> rng \<Rightarrow> 'a list \<times> rng" where
  "shuffle_loop 0 x rs = (x, rs)"
| "shuffle_loop (Suc i) x rs =
     (let (j, rs') = randbelow (Suc i + 1) rs
      in shuffle_loop i (x[Suc i := x ! j, j := x ! Suc i]) rs')"

definition shuffle :: "'a list \<Rightarrow> rng \<Rightarrow> 'a list \<times> rng" where
  "shuffle x rs = shuffle_loop (length x - 1) x rs"

section \<open>Spanning-tree carver\<close>

text \<open>
  \<open>_dfs_carve\<close> mutates \<open>visited\<close> and the wall matrices and consumes random draws; the
  model passes them through as a state. The fourth component of the state is not program
  data: it logs the cells on which \<open>_dfs_carve\<close> is entered, in order, so that
  "visited once" can be stated. The first argument is the number of nested calls the
  interpreter still allows. \<open>dfs_for\<close> is the \<open>for dr, dc in directions\<close> loop.
\<close>

type_synonym carve_state = "maze \<times> bool list list \<times> rng \<times> (int \<times> int) list"

text \<open>The \<open>if dr == 1: ... elif ...\<close> chain that removes the wall towards the next cell.\<close>

definition remove_wall :: "maze \<Rightarrow> int \<Rightarrow> int \<Rightarrow> int \<Rightarrow> int \<Rightarrow> maze" where
  "remove_wall m row col dr dc =
     (if dr = 1
      then m\<lparr>horizontal_walls := assign (horizontal_walls m) (row + 1) col False\<rparr>
      else if dr = -1
      then m\<lparr>horizontal_walls := assign (horizontal_walls m) row col False\<rparr>
      else if dc = 1
      then m\<lparr>vertical_walls := assign (vertical_walls m) row (col + 1) False\<rparr>
      else if dc = -1
      then m\<lparr>vertical_walls := assign (vertical_walls m) row col False\<rparr>
      else m)"

fun dfs_carve :: "nat \<Rightarrow> int \<Rightarrow> int \<Rightarrow> carve_state \<Rightarrow> error + carve_state"
  and dfs_for :: "nat \<Rightarrow> int \<Rightarrow> int \<Rightarrow> (int \<times> int) list \<Rightarrow> carve_state \<Rightarrow> error + carve_state"
where
  "dfs_carve 0 row col s = Inl RecursionError"
| "dfs_carve (Suc depth) row col (m, visited, rs, entered) =
     (let visited = assign visited row col True;
          (directions, rs) = shuffle [(0, 1), (1, 0), (0, -1), (-1, 0)] rs
      in dfs_for depth row col directions (m, visited, rs, entered @ [(row, col)]))"
| "dfs_for depth row col [] s = Inr s"
| "dfs_for depth row col ((dr, dc) # directions) (m, visited, rs, entered) =
     (let next_row = row + dr; next_col = col + dc
      in if 0 \<le> next_row \<and> next_row < grid_size m \<and>
            0 \<le> next_col \<and> next_col < grid_size m \<and>
            \<not> entry visited next_row next_col
         then (case dfs_carve depth next_row next_col
                      (remove_wall m row col dr dc, visited, rs, entered) of
                 Inl e \<Rightarrow> Inl e
               | Inr s \<Rightarrow> dfs_for depth row col directions s)
         else dfs_for depth row col directions (m, visited, rs, entered))"

definition generate_connected_maze_dfs :: "nat \<Rightarrow> maze \<Rightarrow> rng \<Rightarrow> error + carve_state" where
  "generate_connected_maze_dfs depth m rs =
     (let visited = replicate (nat (grid_size m)) (replicate (nat (grid_size m)) False)
      in case randint 0 (grid_size m - 1) rs of
           Inl e \<Rightarrow> Inl e
         | Inr (start_row, rs) \<Rightarrow>
             (case randint 0 (grid_size m - 1) rs of
                Inl e \<Rightarrow> Inl e
              | Inr (start_col, rs) \<Rightarrow> dfs_carve depth start_row start_col (m, visited, rs, [])))"

section \<open>Interior wall count\<close>

definition count_inner_walls :: "maze \<Rightarrow> int" where
  "count_inner_walls m =
     (let count = 0;
          count = fold (\<lambda>row count.
                    fold (\<lambda>col count.
                      if entry (horizontal_walls m) row col then count + 1 else count)
                    [0..grid_size m - 1] count)
                  [1..grid_size m - 1] count;
          count = fold (\<lambda>row count.
                    fold (\<lambda>col count.
                      if entry (vertical_walls m) row col then count + 1 else count)
                    [1..grid_size m - 1] count)
                  [0..grid_size m - 1] count
      in count)"

section \<open>Connectivity checker\<close>

text \<open>
  The state of the \<open>while queue:\<close> loop is \<open>(visited, queue, count)\<close>. \<open>bfs_body\<close>
  is one iteration after \<open>popleft\<close>: the four \<open>if\<close> statements in order. The loop is a
  partial function: \<open>None\<close> stands for a loop that never ends.
\<close>

type_synonym bfs_state = "bool list list \<times> (int \<times> int) list \<times> int"

definition bfs_body :: "maze \<Rightarrow> int \<Rightarrow> int \<Rightarrow> bfs_state \<Rightarrow> bfs_state" where
  "bfs_body m row col s =
     (let s = (case s of (visited, queue, count) \<Rightarrow>
                 if row > 0 \<and> \<not> entry (horizontal_walls m) row col \<and>
                    \<not> entry visited (row - 1) col
                 then (assign visited (row - 1) col True, queue @ [(row - 1, col)], count + 1)
                 else s);
          s = (case s of (visited, queue, count) \<Rightarrow>
                 if row < grid_size m - 1 \<and> \<not> entry (horizontal_walls m) (row + 1) col \<and>
                    \<not> entry visited (row + 1) col
                 then (assign visited (row + 1) col True, queue @ [(row + 1, col)], count + 1)
                 else s);
          s = (case s of (visited, queue, count) \<Rightarrow>
                 if col > 0 \<and> \<not> entry (vertical_walls m) row col \<and>
                    \<not> entry visited row (col - 1)
                 then (assign visited row (col - 1) True, queue @ [(row, col - 1)], count + 1)
                 else s);
          s = (case s of (visited, queue, count) \<Rightarrow>
                 if col < grid_size m - 1 \<and> \<not> entry (vertical_walls m) row (col + 1) \<and>
                    \<not> entry visited row (col + 1)
                 then (assign visited row (col + 1) True, queue @ [(row, col + 1)], count + 1)
                 else s)
      in s)"

partial_function (option) bfs_loop :: "maze \<Rightarrow> bfs_state \<Rightarrow> int option" where
  "bfs_loop m s =
     (case s of (visited, queue, count) \<Rightarrow>
        (case queue of
           [] \<Rightarrow> Some count
         | (row, col) # queue \<Rightarrow> bfs_loop m (bfs_body m row col (visited, queue, count))))"

declare bfs_loop.simps [code]

definition is_all_connected :: "maze \<Rightarrow> bool option" where
  "is_all_connected m =
     (let visited = replicate (nat (grid_size m)) (replicate (nat (grid_size m)) False);
          queue = [(0, 0)];
          visited = assign visited 0 0 True;
          count = 1
      in case bfs_loop m (visited, queue, count) of
           None \<Rightarrow> None
         | Some count \<Rightarrow> Some (count = grid_size m * grid_size m))"

section \<open>Wall densifier\<close>

text \<open>
  A candidate is the tuple \<open>(path_type, row, col)\<close> with \<open>path_type\<close> the character
  \<open>'h'\<close> or \<open>'v'\<close>. \<open>add_walls_loop\<close> is the \<open>for\<close> loop over the shuffled candidates
  with its \<open>break\<close>; its state is the maze and the counter \<open>added\<close>. The result of
  \<open>add_additional_walls\<close> carries the maze, the random source, \<open>added\<close>, and whether the
  warning was printed.
\<close>

type_synonym path = "char \<times> int \<times> int"

definition removable_paths :: "maze \<Rightarrow> path list" where
  "removable_paths m =
     (let paths = [];
          paths = fold (\<lambda>row paths.
                    fold (\<lambda>col paths.
                      if \<not> entry (horizontal_walls m) row col
                      then paths @ [(CHR ''h'', row, col)] else paths)
                    [0..grid_size m - 1] paths)
                  [1..grid_size m - 1] paths;
          paths = fold (\<lambda>row paths.
                    fold (\<lambda>col paths.
                      if \<not> entry (vertical_walls m) row col
                      then paths @ [(CHR ''v'', row, col)] else paths)
                    [1..grid_size m - 1] paths)
                  [0..grid_size m - 1] paths
      in paths)"

text \<open>
  The assignment \<open>if path_type == 'h': horizontal_walls[row][col] = v else:
  vertical_walls[row][col] = v\<close>, which the loop performs with \<open>v = True\<close> to try a
  wall and with \<open>v = False\<close> to take it back.
\<close>

definition set_path :: "maze \<Rightarrow> path \<Rightarrow> bool \<Rightarrow> maze" where
  "set_path m p v =
     (case p of (path_type, row, col) \<Rightarrow>
        if path_type = CHR ''h''
        then m\<lparr>horizontal_walls := assign (horizontal_walls m) row col v\<rparr>
        else m\<lparr>vertical_walls := assign (vertical_walls m) row col v\<rparr>)"

fun add_walls_loop :: "int \<Rightarrow> path list \<Rightarrow> maze \<times> int \<Rightarrow> (maze \<times> int) option" where
  "add_walls_loop num_walls_to_add [] (m, added) = Some (m, added)"
| "add_walls_loop num_walls_to_add (p # rest) (m, added) =
     (if added \<ge> num_walls_to_add then Some (m, added)
      else (case is_all_connected (set_path m p True) of
              None \<Rightarrow> None
            | Some True \<Rightarrow> add_walls_loop num_walls_to_add rest (set_path m p True, added + 1)
            | Some False \<Rightarrow>
                add_walls_loop num_walls_to_add rest (set_path (set_path m p True) p False, added)))"

definition add_additional_walls ::
  "maze \<Rightarrow> int \<Rightarrow> rng \<Rightarrow> (maze \<times> rng \<times> int \<times> bool) option" where
  "add_additional_walls m num_walls_to_add rs =
     (let (paths, rs) = shuffle (removable_paths m) rs
      in case add_walls_loop num_walls_to_add paths (m, 0) of
           None \<Rightarrow> None
         | Some (m, added) \<Rightarrow> Some (m, rs, added, added < num_walls_to_add))"

section \<open>Geometry projector\<close>

text \<open>
  A wall descriptor is the dictionary built by \<open>_create_wall\<close>; its keys
  \<open>x, y, z, length, width, height, yaw\<close> are the fields below.
\<close>

record wall =
  wall_x :: real
  wall_y :: real
  wall_z :: real
  wall_length :: real
  wall_width :: real
  wall_height_of :: real
  wall_yaw :: real

definition create_wall :: "maze \<Rightarrow> real \<Rightarrow> real \<Rightarrow> real \<Rightarrow> string \<Rightarrow> wall" where
  "create_wall m x y z orientation =
     (let (len, width, yaw) =
            (if orientation = ''horizontal''
             then (cell_size m, wall_thickness m, 0)
             else (wall_thickness m, cell_size m, 0))
      in \<lparr> wall_x = x, wall_y = y, wall_z = z + wall_height m / 2,
           wall_length = len, wall_width = width,
           wall_height_of = wall_height m, wall_yaw = yaw \<rparr>)"

definition half_size :: "maze \<Rightarrow> real" where
  "half_size m = (real_of_int (grid_size m) * cell_size m) / 2"

text \<open>
  \<open>_convert_to_3d_walls\<close>: two nested \<open>for\<close> loops, each appending to \<open>walls\<close>.
  \<open>range(n)\<close> is the list \<open>[0..n - 1]\<close>.
\<close>

definition convert_to_3d_walls :: "maze \<Rightarrow> wall list" where
  "convert_to_3d_walls m =
     (let walls = [];
          walls = fold (\<lambda>row walls.
                    fold (\<lambda>col walls.
                      if entry (horizontal_walls m) row col
                      then (let x = - half_size m + (real_of_int col + 0.5) * cell_size m;
                                y = - half_size m + real_of_int row * cell_size m
                            in walls @ [create_wall m x y 0 ''horizontal''])
                      else walls)
                    [0..grid_size m - 1] walls)
                  [0..grid_size m + 1 - 1] walls;
          walls = fold (\<lambda>row walls.
                    fold (\<lambda>col walls.
                      if entry (vertical_walls m) row col
                      then (let x = - half_size m + real_of_int col * cell_size m;
                                y = - half_size m + (real_of_int row + 0.5) * cell_size m
                            in walls @ [create_wall m x y 0 ''vertical''])
                      else walls)
                    [0..grid_size m + 1 - 1] walls)
                  [0..grid_size m - 1] walls
      in walls)"

section \<open>The pipeline\<close>

text \<open>
  \<open>generate_maze\<close> returns the descriptors; the model also returns the final maze and
  random source. The outcome is \<open>None\<close> if the run never returns, \<open>Some (Inl e)\<close> if it
  raises \<open>e\<close>, and \<open>Some (Inr r)\<close> if it returns \<open>r\<close>. \<open>main\<close> builds the generator from the
  parsed arguments, without any check of them, and calls \<open>generate_maze\<close>; printing and
  writing the scene file are left out. The first argument of both is the nesting depth the
  interpreter allows the carver.
\<close>

definition generate_maze ::
  "nat \<Rightarrow> maze \<Rightarrow> rng \<Rightarrow> (error + (wall list \<times> maze \<times> rng)) option" where
  "generate_maze depth m rs =
     (case generate_connected_maze_dfs depth m rs of
        Inl e \<Rightarrow> Some (Inl e)
      | Inr (m, visited, rs, entered) \<Rightarrow>
          (let current_inner_walls = count_inner_walls m
           in if current_inner_walls < min_walls m
              then (case add_additional_walls m (min_walls m - current_inner_walls) rs of
                      None \<Rightarrow> None
                    | Some (m, rs, added, warned) \<Rightarrow> Some (Inr (convert_to_3d_walls m, m, rs)))
              else Some (Inr (convert_to_3d_walls m, m, rs))))"

definition main ::
  "nat \<Rightarrow> int \<Rightarrow> real \<Rightarrow> int \<Rightarrow> string \<Rightarrow> rng \<Rightarrow> (error + (wall list \<times> maze \<times> rng)) option" where
  "main depth size_arg cell_size_arg min_walls_arg output rs =
     generate_maze depth (MazeGenerator size_arg cell_size_arg min_walls_arg output) rs"

subsection \<open>The projector as a comprehension\<close>

text \<open>
  The descriptor the specification gives for a horizontal and for a vertical wall entry,
  and the row-major enumeration \<open>List.product rows cols\<close> of the positions.
\<close>

definition horizontal_descriptor :: "maze \<Rightarrow> int \<times> int \<Rightarrow> wall" where
  "horizontal_descriptor m p =
     \<lparr> wall_x = - half_size m + (real_of_int (snd p) + 0.5) * cell_size m,
       wall_y = - half_size m + real_of_int (fst p) * cell_size m,
       wall_z = wall_height m / 2,
       wall_length = cell_size m, wall_width = wall_thickness m,
       wall_height_of = wall_height m, wall_yaw = 0 \<rparr>"

definition vertical_descriptor :: "maze \<Rightarrow> int \<times> int \<Rightarrow> wall" where
  "vertical_descriptor m p =
     \<lparr> wall_x = - half_size m + real_of_int (snd p) * cell_size m,
       wall_y = - half_size m + (real_of_int (fst p) + 0.5) * cell_size m,
       wall_z = wall_height m / 2,
       wall_length = wall_thickness m, wall_width = cell_size m,
       wall_height_of = wall_height m, wall_yaw = 0 \<rparr>"

lemma fold_append_if:
  "fold (\<lambda>a acc. if P a then acc @ [f a] else acc) xs acc = acc @ map f (filter P xs)"
  by (induction xs arbitrary: acc) simp_all

lemma fold_fold_append_if:
  "fold (\<lambda>a acc. fold (\<lambda>b acc. if P a b then acc @ [f a b] else acc) ys acc) xs acc
     = acc @ map (\<lambda>(a, b). f a b) (filter (\<lambda>(a, b). P a b) (List.product xs ys))"
proof -
  have row: "map (\<lambda>(a, b). f a b) (filter (\<lambda>(a, b). P a b) (map (Pair a) ys))
          = map (f a) (filter (P a) ys)" for a
    by (induction ys) simp_all
  have "fold (\<lambda>a acc. acc @ map (f a) (filter (P a) ys)) xs acc
     = acc @ map (\<lambda>(a, b). f a b) (filter (\<lambda>(a, b). P a b) (List.product xs ys))"
    by (induction xs arbitrary: acc) (simp_all add: row)
  then show ?thesis
    by (simp add: fold_append_if)
qed

lemma convert_to_3d_walls_eq:
  "convert_to_3d_walls m =
     map (horizontal_descriptor m)
       (filter (\<lambda>(row, col). entry (horizontal_walls m) row col)
          (List.product [0..grid_size m] [0..grid_size m - 1]))
     @ map (vertical_descriptor m)
       (filter (\<lambda>(row, col). entry (vertical_walls m) row col)
          (List.product [0..grid_size m - 1] [0..grid_size m]))"
proof -
  have h: "(\<lambda>(row, col). create_wall m
              (- half_size m + (real_of_int col + 0.5) * cell_size m)
              (- half_size m + real_of_int row * cell_size m) 0 ''horizontal'')
           = horizontal_descriptor m"
    by (auto simp: fun_eq_iff create_wall_def horizontal_descriptor_def)
  have v: "(\<lambda>(row, col). create_wall m
              (- half_size m + real_of_int col * cell_size m)
              (- half_size m + (real_of_int row + 0.5) * cell_size m) 0 ''vertical'')
           = vertical_descriptor m"
    by (auto simp: fun_eq_iff create_wall_def vertical_descriptor_def)
  show ?thesis
    unfolding convert_to_3d_walls_def Let_def
    by (simp only: fold_fold_append_if h v append_Nil add_diff_cancel_right')
qed

text \<open>
  C10. The projector emits first the descriptors of all present horizontal walls, rows
  \<open>0..N\<close> and within a row columns \<open>0..N-1\<close>, then those of all present vertical walls,
  rows \<open>0..N-1\<close> and within a row columns \<open>0..N\<close>. The sequence is a function of the
  wall state alone; no random source enters it.
\<close>

theorem projector_row_major_order:
  "convert_to_3d_walls m =
     map (horizontal_descriptor m)
       (filter (\<lambda>(row, col). entry (horizontal_walls m) row col)
          (List.product [0..grid_size m] [0..grid_size m - 1]))
     @ map (vertical_descriptor m)
       (filter (\<lambda>(row, col). entry (vertical_walls m) row col)
          (List.product [0..grid_size m - 1] [0..grid_size m]))"
  by (rule convert_to_3d_walls_eq)

text \<open>
  C9. Every present horizontal entry \<open>(row, col)\<close> yields a descriptor centred at
  \<open>x = - half + (col + 0.5) * cell_size\<close>, \<open>y = - half + row * cell_size\<close> with footprint
  \<open>(cell_size, thickness)\<close>; every present vertical entry yields one centred at
  \<open>x = - half + col * cell_size\<close>, \<open>y = - half + (row + 0.5) * cell_size\<close> with footprint
  \<open>(thickness, cell_size)\<close>; \<open>half = grid_size * cell_size / 2\<close>; every descriptor has
  yaw 0, the maze's wall height, and its centre at half that height. (Arithmetic is exact
  real arithmetic here, floating point in the program.)
\<close>

theorem projector_geometry:
  "(\<forall>row col. 0 \<le> row \<and> row \<le> grid_size m \<and> 0 \<le> col \<and> col < grid_size m \<and>
        entry (horizontal_walls m) row col \<longrightarrow>
      \<lparr> wall_x = - half_size m + (real_of_int col + 0.5) * cell_size m,
        wall_y = - half_size m + real_of_int row * cell_size m,
        wall_z = wall_height m / 2,
        wall_length = cell_size m, wall_width = wall_thickness m,
        wall_height_of = wall_height m, wall_yaw = 0 \<rparr> \<in> set (convert_to_3d_walls m)) \<and>
   (\<forall>row col. 0 \<le> row \<and> row < grid_size m \<and> 0 \<le> col \<and> col \<le> grid_size m \<and>
        entry (vertical_walls m) row col \<longrightarrow>
      \<lparr> wall_x = - half_size m + real_of_int col * cell_size m,
        wall_y = - half_size m + (real_of_int row + 0.5) * cell_size m,
        wall_z = wall_height m / 2,
        wall_length = wall_thickness m, wall_width = cell_size m,
        wall_height_of = wall_height m, wall_yaw = 0 \<rparr> \<in> set (convert_to_3d_walls m)) \<and>
   (\<forall>d \<in> set (convert_to_3d_walls m).
      wall_yaw d = 0 \<and> wall_height_of d = wall_height m \<and> wall_z d = wall_height m / 2) \<and>
   half_size m = (real_of_int (grid_size m) * cell_size m) / 2"
proof (intro conjI allI impI ballI)
  fix row col
  assume a: "0 \<le> row \<and> row \<le> grid_size m \<and> 0 \<le> col \<and> col < grid_size m \<and>
        entry (horizontal_walls m) row col"
  then have "(row, col) \<in> set (filter (\<lambda>(row, col). entry (horizontal_walls m) row col)
          (List.product [0..grid_size m] [0..grid_size m - 1]))"
    by simp
  then have "horizontal_descriptor m (row, col) \<in> set (convert_to_3d_walls m)"
    unfolding convert_to_3d_walls_eq set_append set_map by blast
  then show "\<lparr> wall_x = - half_size m + (real_of_int col + 0.5) * cell_size m,
        wall_y = - half_size m + real_of_int row * cell_size m,
        wall_z = wall_height m / 2,
        wall_length = cell_size m, wall_width = wall_thickness m,
        wall_height_of = wall_height m, wall_yaw = 0 \<rparr> \<in> set (convert_to_3d_walls m)"
    by (simp add: horizontal_descriptor_def)
next
  fix row col
  assume a: "0 \<le> row \<and> row < grid_size m \<and> 0 \<le> col \<and> col \<le> grid_size m \<and>
        entry (vertical_walls m) row col"
  then have "(row, col) \<in> set (filter (\<lambda>(row, col). entry (vertical_walls m) row col)
          (List.product [0..grid_size m - 1] [0..grid_size m]))"
    by simp
  then have "vertical_descriptor m (row, col) \<in> set (convert_to_3d_walls m)"
    unfolding convert_to_3d_walls_eq set_append set_map by blast
  then show "\<lparr> wall_x = - half_size m + real_of_int col * cell_size m,
        wall_y = - half_size m + (real_of_int row + 0.5) * cell_size m,
        wall_z = wall_height m / 2,
        wall_length = wall_thickness m, wall_width = cell_size m,
        wall_height_of = wall_height m, wall_yaw = 0 \<rparr> \<in> set (convert_to_3d_walls m)"
    by (simp add: vertical_descriptor_def)
next
  fix d
  assume "d \<in> set (convert_to_3d_walls m)"
  then have d: "(\<exists>p. d = horizontal_descriptor m p) \<or> (\<exists>p. d = vertical_descriptor m p)"
    unfolding convert_to_3d_walls_eq set_append set_map by blast
  from d show "wall_yaw d = 0"
    by (auto simp: horizontal_descriptor_def vertical_descriptor_def)
  from d show "wall_height_of d = wall_height m"
    by (auto simp: horizontal_descriptor_def vertical_descriptor_def)
  from d show "wall_z d = wall_height m / 2"
    by (auto simp: horizontal_descriptor_def vertical_descriptor_def)
next
  show "half_size m = (real_of_int (grid_size m) * cell_size m) / 2"
    by (simp add: half_size_def)
qed

theorem projector_geometry_witness:
  "entry (horizontal_walls (MazeGenerator 1 1 0 ''maze.sdf'')) 1 0 \<and>
   \<lparr> wall_x = 0, wall_y = 1 / 2, wall_z = 1 / 4,
     wall_length = 1, wall_width = 1 / 20,
     wall_height_of = 1 / 2, wall_yaw = 0 \<rparr>
     \<in> set (convert_to_3d_walls (MazeGenerator 1 1 0 ''maze.sdf''))"
proof -
  have e: "entry (horizontal_walls (MazeGenerator 1 1 0 ''maze.sdf'')) 1 0"
    by (simp add: MazeGenerator_def entry_def)
  have "\<forall>row col. 0 \<le> row \<and> row \<le> grid_size (MazeGenerator 1 1 0 ''maze.sdf'') \<and> 0 \<le> col \<and>
        col < grid_size (MazeGenerator 1 1 0 ''maze.sdf'') \<and>
        entry (horizontal_walls (MazeGenerator 1 1 0 ''maze.sdf'')) row col \<longrightarrow>
      \<lparr> wall_x = - half_size (MazeGenerator 1 1 0 ''maze.sdf'')
                 + (real_of_int col + 0.5) * cell_size (MazeGenerator 1 1 0 ''maze.sdf''),
        wall_y = - half_size (MazeGenerator 1 1 0 ''maze.sdf'')
                 + real_of_int row * cell_size (MazeGenerator 1 1 0 ''maze.sdf''),
        wall_z = wall_height (MazeGenerator 1 1 0 ''maze.sdf'') / 2,
        wall_length = cell_size (MazeGenerator 1 1 0 ''maze.sdf''),
        wall_width = wall_thickness (MazeGenerator 1 1 0 ''maze.sdf''),
        wall_height_of = wall_height (MazeGenerator 1 1 0 ''maze.sdf''), wall_yaw = 0 \<rparr>
        \<in> set (convert_to_3d_walls (MazeGenerator 1 1 0 ''maze.sdf''))"
    using projector_geometry [of "MazeGenerator 1 1 0 ''maze.sdf''"] by (rule conjunct1)
  from this [rule_format, of 1 0] e
  have "\<lparr> wall_x = - half_size (MazeGenerator 1 1 0 ''maze.sdf'')
                 + (real_of_int 0 + 0.5) * cell_size (MazeGenerator 1 1 0 ''maze.sdf''),
        wall_y = - half_size (MazeGenerator 1 1 0 ''maze.sdf'')
                 + real_of_int 1 * cell_size (MazeGenerator 1 1 0 ''maze.sdf''),
        wall_z = wall_height (MazeGenerator 1 1 0 ''maze.sdf'') / 2,
        wall_length = cell_size (MazeGenerator 1 1 0 ''maze.sdf''),
        wall_width = wall_thickness (MazeGenerator 1 1 0 ''maze.sdf''),
        wall_height_of = wall_height (MazeGenerator 1 1 0 ''maze.sdf''), wall_yaw = 0 \<rparr>
        \<in> set (convert_to_3d_walls (MazeGenerator 1 1 0 ''maze.sdf''))"
    by (simp add: MazeGenerator_def)
  moreover have "half_size (MazeGenerator 1 1 0 ''maze.sdf'') = 1 / 2"
    by (simp add: half_size_def MazeGenerator_def)
  moreover have "cell_size (MazeGenerator 1 1 0 ''maze.sdf'') = 1"
    "wall_height (MazeGenerator 1 1 0 ''maze.sdf'') = 1 / 2"
    "wall_thickness (MazeGenerator 1 1 0 ''maze.sdf'') = 1 / 20"
    by (simp_all add: MazeGenerator_def)
  ultimately show ?thesis using e by simp
qed

section \<open>Matrices\<close>

lemma length_assign: "length (assign mat r c v) = length mat"
  by (simp add: assign_def)

lemma rows_assign:
  "\<forall>row \<in> set mat. length row = n \<Longrightarrow> \<forall>row \<in> set (assign mat r c v). length row = n"
proof (cases "nat r < length mat")
  case True
  assume a: "\<forall>row \<in> set mat. length row = n"
  from True have "mat ! nat r \<in> set mat" by simp
  with a have "length ((mat ! nat r)[nat c := v]) = n" by simp
  moreover have "set (assign mat r c v) \<subseteq> insert ((mat ! nat r)[nat c := v]) (set mat)"
    unfolding assign_def by (rule set_update_subset_insert)
  ultimately show ?thesis using a by auto
next
  case False
  assume a: "\<forall>row \<in> set mat. length row = n"
  from False have "assign mat r c v = mat" by (simp add: assign_def list_update_beyond)
  with a show ?thesis by simp
qed

lemma entry_assign:
  assumes "0 \<le> r" "0 \<le> c" "0 \<le> r'" "0 \<le> c'"
    and "nat r < length mat" "nat c < length (mat ! nat r)"
  shows "entry (assign mat r c v) r' c' = (if r' = r \<and> c' = c then v else entry mat r' c')"
proof (cases "r' = r")
  case True
  with assms show ?thesis
    by (auto simp: entry_def assign_def nth_list_update)
next
  case False
  with assms have "nat r' \<noteq> nat r" by simp
  then show ?thesis using False
    by (simp add: entry_def assign_def)
qed

lemma assign_assign_same:
  assumes "nat r < length mat" "entry mat r c = w"
  shows "assign (assign mat r c v) r c w = mat"
proof -
  have "(mat ! nat r)[nat c := w] = mat ! nat r"
    using assms(2) unfolding entry_def by (metis list_update_id)
  then show ?thesis
    using assms(1) by (simp add: assign_def)
qed

section \<open>Shuffle\<close>

lemma shuffle_loop_props:
  "i < length x \<or> i = 0 \<Longrightarrow>
     set (fst (shuffle_loop i x rs)) = set x \<and>
     length (fst (shuffle_loop i x rs)) = length x \<and>
     (distinct x \<longrightarrow> distinct (fst (shuffle_loop i x rs)))"
proof (induction i arbitrary: x rs)
  case 0
  show ?case by simp
next
  case (Suc i)
  then have lt: "Suc i < length x" by simp
  obtain j rs' where jr: "randbelow (Suc i + 1) rs = (j, rs')" by (cases "randbelow (Suc i + 1) rs")
  have "j < Suc i + 1"
    using jr by (auto simp: randbelow_def split: list.splits)
  with lt have jl: "j < length x" by simp
  let ?x = "x[Suc i := x ! j, j := x ! Suc i]"
  have s: "set ?x = set x" using lt jl by (simp add: set_swap)
  have d: "distinct x \<longrightarrow> distinct ?x" using lt jl by (simp add: distinct_swap)
  have l: "length ?x = length x" by simp
  have "i < length ?x \<or> i = 0" using lt by simp
  from Suc.IH [OF this, of rs'] s d l jr show ?case by simp
qed

lemma shuffle_props:
  "set (fst (shuffle x rs)) = set x \<and> length (fst (shuffle x rs)) = length x \<and>
   (distinct x \<longrightarrow> distinct (fst (shuffle x rs)))"
proof -
  have "length x - 1 < length x \<or> length x - 1 = 0" by (cases x) simp_all
  from shuffle_loop_props [OF this] show ?thesis by (simp add: shuffle_def)
qed

section \<open>Cells, passages, connectivity\<close>

text \<open>
  The graph of the specification. Its nodes are the cells \<open>(row, col)\<close> with
  \<open>0 \<le> row, col < n\<close>. An interior entry is a horizontal entry \<open>('h', r, c)\<close> with
  \<open>1 \<le> r \<le> n - 1\<close>, which lies between the cells \<open>(r - 1, c)\<close> and \<open>(r, c)\<close>, or a
  vertical entry \<open>('v', r, c)\<close> with \<open>1 \<le> c \<le> n - 1\<close>, which lies between \<open>(r, c - 1)\<close>
  and \<open>(r, c)\<close>; the tags are those of the densifier's candidates. An interior entry that
  is false is an edge between its two cells. The maze is connected when every cell is
  reachable from every other cell along such edges. The boundary is intact when rows \<open>0\<close>
  and \<open>n\<close> of the horizontal matrix and columns \<open>0\<close> and \<open>n\<close> of the vertical matrix are
  true.
\<close>

definition cells :: "int \<Rightarrow> (int \<times> int) set" where
  "cells n = {0..n - 1} \<times> {0..n - 1}"

definition interior :: "int \<Rightarrow> path set" where
  "interior n = {(k, r, c). (k = CHR ''h'' \<and> 1 \<le> r \<and> r \<le> n - 1 \<and> 0 \<le> c \<and> c \<le> n - 1) \<or>
                            (k = CHR ''v'' \<and> 0 \<le> r \<and> r \<le> n - 1 \<and> 1 \<le> c \<and> c \<le> n - 1)}"

definition is_open :: "maze \<Rightarrow> path \<Rightarrow> bool" where
  "is_open m p = (case p of (k, r, c) \<Rightarrow>
      if k = CHR ''h'' then \<not> entry (horizontal_walls m) r c
      else \<not> entry (vertical_walls m) r c)"

definition open_paths :: "maze \<Rightarrow> path set" where
  "open_paths m = {p \<in> interior (grid_size m). is_open m p}"

definition ends :: "path \<Rightarrow> (int \<times> int) \<times> (int \<times> int)" where
  "ends p = (case p of (k, r, c) \<Rightarrow>
      if k = CHR ''h'' then ((r - 1, c), (r, c)) else ((r, c - 1), (r, c)))"

definition passage :: "maze \<Rightarrow> ((int \<times> int) \<times> (int \<times> int)) set" where
  "passage m = {(a, b). \<exists>p \<in> open_paths m. ends p = (a, b) \<or> ends p = (b, a)}"

definition reachable :: "maze \<Rightarrow> int \<times> int \<Rightarrow> (int \<times> int) set" where
  "reachable m a = (passage m)\<^sup>* `` {a}"

definition connected :: "maze \<Rightarrow> bool" where
  "connected m \<longleftrightarrow> (\<forall>a \<in> cells (grid_size m). \<forall>b \<in> cells (grid_size m). (a, b) \<in> (passage m)\<^sup>*)"

definition boundary_intact :: "maze \<Rightarrow> bool" where
  "boundary_intact m \<longleftrightarrow>
     (\<forall>c. 0 \<le> c \<and> c < grid_size m \<longrightarrow>
        entry (horizontal_walls m) 0 c \<and> entry (horizontal_walls m) (grid_size m) c) \<and>
     (\<forall>r. 0 \<le> r \<and> r < grid_size m \<longrightarrow>
        entry (vertical_walls m) r 0 \<and> entry (vertical_walls m) r (grid_size m))"

lemma finite_cells: "finite (cells n)"
  by (simp add: cells_def)

lemma card_cells: "card (cells n) = nat n * nat n"
  by (simp add: cells_def)

lemma cells_iff: "(r, c) \<in> cells n \<longleftrightarrow> 0 \<le> r \<and> r < n \<and> 0 \<le> c \<and> c < n"
  by (auto simp: cells_def)

lemma interior_subset: "interior n \<subseteq> {CHR ''h'', CHR ''v''} \<times> ({0..n - 1} \<times> {0..n - 1})"
  by (auto simp: interior_def)

lemma finite_interior: "finite (interior n)"
  by (rule finite_subset [OF interior_subset]) simp

lemma finite_open_paths: "finite (open_paths m)"
  by (rule finite_subset [of _ "interior (grid_size m)"]) (auto simp: open_paths_def finite_interior)

lemma ends_cells:
  "p \<in> interior n \<Longrightarrow> fst (ends p) \<in> cells n \<and> snd (ends p) \<in> cells n"
  by (auto simp: interior_def ends_def cells_def)

lemma ends_inj: "p \<in> interior n \<Longrightarrow> q \<in> interior n \<Longrightarrow>
    ends p = ends q \<or> ends p = (snd (ends q), fst (ends q)) \<Longrightarrow> p = q"
  by (auto simp: interior_def ends_def split: if_splits)

lemma passage_sym: "(a, b) \<in> passage m \<Longrightarrow> (b, a) \<in> passage m"
  by (auto simp: passage_def)

lemma passage_cells: "(a, b) \<in> passage m \<Longrightarrow> a \<in> cells (grid_size m) \<and> b \<in> cells (grid_size m)"
  by (auto simp: passage_def open_paths_def interior_def ends_def cells_def split: if_splits)

lemma passageI:
  "p \<in> interior (grid_size m) \<Longrightarrow> is_open m p \<Longrightarrow> ends p = (a, b) \<or> ends p = (b, a) \<Longrightarrow>
   (a, b) \<in> passage m"
  unfolding passage_def open_paths_def by blast

lemma passage_rtrancl_sym: "(a, b) \<in> (passage m)\<^sup>* \<Longrightarrow> (b, a) \<in> (passage m)\<^sup>*"
proof (induction rule: rtrancl_induct)
  case base
  show ?case by simp
next
  case (step y z)
  from step.hyps(2) have "(z, y) \<in> passage m" by (rule passage_sym)
  with step.IH show ?case by (meson converse_rtrancl_into_rtrancl)
qed

lemma reachable_subset_cells:
  "a \<in> cells (grid_size m) \<Longrightarrow> reachable m a \<subseteq> cells (grid_size m)"
proof
  fix b assume a: "a \<in> cells (grid_size m)" and "b \<in> reachable m a"
  then have "(a, b) \<in> (passage m)\<^sup>*" by (simp add: reachable_def)
  then show "b \<in> cells (grid_size m)"
    using a by (induction rule: rtrancl_induct) (auto dest: passage_cells)
qed

text \<open>The moves the checker makes from a cell are exactly the passages.\<close>

lemma passage_up: "(r, c) \<in> cells (grid_size m) \<Longrightarrow>
    ((r, c), (r - 1, c)) \<in> passage m \<longleftrightarrow> r > 0 \<and> \<not> entry (horizontal_walls m) r c"
proof
  assume "((r, c), (r - 1, c)) \<in> passage m"
  then show "r > 0 \<and> \<not> entry (horizontal_walls m) r c"
    by (auto simp: passage_def open_paths_def interior_def ends_def is_open_def split: if_splits)
next
  assume "(r, c) \<in> cells (grid_size m)" "r > 0 \<and> \<not> entry (horizontal_walls m) r c"
  then show "((r, c), (r - 1, c)) \<in> passage m"
    by (intro passageI [of "(CHR ''h'', r, c)"]) (auto simp: interior_def is_open_def ends_def cells_def)
qed

lemma passage_down: "(r, c) \<in> cells (grid_size m) \<Longrightarrow>
    ((r, c), (r + 1, c)) \<in> passage m \<longleftrightarrow> r < grid_size m - 1 \<and> \<not> entry (horizontal_walls m) (r + 1) c"
proof
  assume "((r, c), (r + 1, c)) \<in> passage m"
  then show "r < grid_size m - 1 \<and> \<not> entry (horizontal_walls m) (r + 1) c"
    by (auto simp: passage_def open_paths_def interior_def ends_def is_open_def split: if_splits)
next
  assume "(r, c) \<in> cells (grid_size m)" "r < grid_size m - 1 \<and> \<not> entry (horizontal_walls m) (r + 1) c"
  then show "((r, c), (r + 1, c)) \<in> passage m"
    by (intro passageI [of "(CHR ''h'', r + 1, c)"]) (auto simp: interior_def is_open_def ends_def cells_def)
qed

lemma passage_left: "(r, c) \<in> cells (grid_size m) \<Longrightarrow>
    ((r, c), (r, c - 1)) \<in> passage m \<longleftrightarrow> c > 0 \<and> \<not> entry (vertical_walls m) r c"
proof
  assume "((r, c), (r, c - 1)) \<in> passage m"
  then show "c > 0 \<and> \<not> entry (vertical_walls m) r c"
    by (auto simp: passage_def open_paths_def interior_def ends_def is_open_def split: if_splits)
next
  assume "(r, c) \<in> cells (grid_size m)" "c > 0 \<and> \<not> entry (vertical_walls m) r c"
  then show "((r, c), (r, c - 1)) \<in> passage m"
    by (intro passageI [of "(CHR ''v'', r, c)"]) (auto simp: interior_def is_open_def ends_def cells_def)
qed

lemma passage_right: "(r, c) \<in> cells (grid_size m) \<Longrightarrow>
    ((r, c), (r, c + 1)) \<in> passage m \<longleftrightarrow> c < grid_size m - 1 \<and> \<not> entry (vertical_walls m) r (c + 1)"
proof
  assume "((r, c), (r, c + 1)) \<in> passage m"
  then show "c < grid_size m - 1 \<and> \<not> entry (vertical_walls m) r (c + 1)"
    by (auto simp: passage_def open_paths_def interior_def ends_def is_open_def split: if_splits)
next
  assume "(r, c) \<in> cells (grid_size m)" "c < grid_size m - 1 \<and> \<not> entry (vertical_walls m) r (c + 1)"
  then show "((r, c), (r, c + 1)) \<in> passage m"
    by (intro passageI [of "(CHR ''v'', r, c + 1)"]) (auto simp: interior_def is_open_def ends_def cells_def)
qed

lemma passage_neighbour:
  "((r, c), b) \<in> passage m \<Longrightarrow> b = (r - 1, c) \<or> b = (r + 1, c) \<or> b = (r, c - 1) \<or> b = (r, c + 1)"
  by (auto simp: passage_def ends_def split: if_splits)

section \<open>The visited matrix\<close>

text \<open>
  \<open>visited\<close> is an \<open>n \<times> n\<close> matrix of flags in both traversals; \<open>visited_cells\<close> is the
  set of cells whose flag is set.
\<close>

definition vshaped :: "int \<Rightarrow> bool list list \<Rightarrow> bool" where
  "vshaped n vis \<longleftrightarrow> length vis = nat n \<and> (\<forall>row \<in> set vis. length row = nat n)"

definition visited_cells :: "int \<Rightarrow> bool list list \<Rightarrow> (int \<times> int) set" where
  "visited_cells n vis = {(r, c) \<in> cells n. entry vis r c}"

lemma visited_cells_subset: "visited_cells n vis \<subseteq> cells n"
  by (auto simp: visited_cells_def)

lemma finite_visited_cells: "finite (visited_cells n vis)"
  by (rule finite_subset [OF visited_cells_subset finite_cells])

lemma vshaped_assign: "vshaped n vis \<Longrightarrow> vshaped n (assign vis r c v)"
  unfolding vshaped_def using rows_assign [of vis "nat n" r c v] by (simp add: length_assign)

lemma visited_cells_assign:
  assumes "vshaped n vis" "(r, c) \<in> cells n"
  shows "visited_cells n (assign vis r c True) = insert (r, c) (visited_cells n vis)"
proof -
  from assms have r: "0 \<le> r" "0 \<le> c" "nat r < length vis"
    by (auto simp: cells_def vshaped_def)
  then have "vis ! nat r \<in> set vis" by simp
  with assms have c: "nat c < length (vis ! nat r)"
    by (auto simp: cells_def vshaped_def)
  have "entry (assign vis r c True) r' c' = (if r' = r \<and> c' = c then True else entry vis r' c')"
    if "(r', c') \<in> cells n" for r' c'
    using that r c by (intro entry_assign) (auto simp: cells_def)
  then show ?thesis
    using assms(2) by (auto simp: visited_cells_def)
qed

lemma visited_cells_replicate: "visited_cells n (replicate (nat n) (replicate (nat n) False)) = {}"
  by (auto simp: visited_cells_def cells_def entry_def)

lemma vshaped_replicate: "vshaped n (replicate (nat n) (replicate (nat n) b))"
  by (simp add: vshaped_def)

section \<open>The connectivity checker computes the reachable set\<close>

text \<open>
  Each of the four \<open>if\<close> statements of the loop body is \<open>bfs_push\<close> for one neighbour.
  The loop invariant \<open>bfs_inv\<close>: the queue holds visited cells only, \<open>count\<close> is the number
  of visited cells, every visited cell is reachable from \<open>(0, 0)\<close>, and every visited cell
  that has left the queue (and is not in the exempted set, which holds the cell being
  expanded) has all its passages leading to visited cells. The number of unvisited cells
  plus the length of the queue decreases with every iteration, so the loop ends.
\<close>

definition bfs_push :: "bool \<Rightarrow> int \<times> int \<Rightarrow> bfs_state \<Rightarrow> bfs_state" where
  "bfs_push cond b s = (case s of (visited, queue, count) \<Rightarrow>
      if cond \<and> \<not> entry visited (fst b) (snd b)
      then (assign visited (fst b) (snd b) True, queue @ [b], count + 1) else s)"

lemma bfs_push_eq:
  "(case s of (visited, queue, count) \<Rightarrow>
      if A \<and> B \<and> \<not> entry visited r c
      then (assign visited r c True, queue @ [(r, c)], count + 1) else s)
   = bfs_push (A \<and> B) (r, c) s"
  by (cases s) (simp add: bfs_push_def)

lemma bfs_body_push:
  "bfs_body m row col s =
     bfs_push (col < grid_size m - 1 \<and> \<not> entry (vertical_walls m) row (col + 1)) (row, col + 1)
       (bfs_push (col > 0 \<and> \<not> entry (vertical_walls m) row col) (row, col - 1)
         (bfs_push (row < grid_size m - 1 \<and> \<not> entry (horizontal_walls m) (row + 1) col) (row + 1, col)
           (bfs_push (row > 0 \<and> \<not> entry (horizontal_walls m) row col) (row - 1, col) s)))"
  by (simp only: bfs_body_def Let_def bfs_push_eq)

definition bfs_inv :: "maze \<Rightarrow> (int \<times> int) set \<Rightarrow> bfs_state \<Rightarrow> bool" where
  "bfs_inv m X s = (case s of (visited, queue, count) \<Rightarrow>
      vshaped (grid_size m) visited \<and>
      set queue \<subseteq> visited_cells (grid_size m) visited \<and>
      count = int (card (visited_cells (grid_size m) visited)) \<and>
      visited_cells (grid_size m) visited \<subseteq> reachable m (0, 0) \<and>
      (0, 0) \<in> visited_cells (grid_size m) visited \<and>
      (\<forall>a \<in> visited_cells (grid_size m) visited - set queue - X.
         \<forall>b. (a, b) \<in> passage m \<longrightarrow> b \<in> visited_cells (grid_size m) visited))"

definition bfs_measure :: "maze \<Rightarrow> bfs_state \<Rightarrow> nat" where
  "bfs_measure m s = (case s of (visited, queue, count) \<Rightarrow>
      card (cells (grid_size m) - visited_cells (grid_size m) visited) + length queue)"

definition bfs_seen :: "maze \<Rightarrow> bfs_state \<Rightarrow> (int \<times> int) set" where
  "bfs_seen m s = (case s of (visited, queue, count) \<Rightarrow> visited_cells (grid_size m) visited)"

lemma bfs_push_step:
  assumes inv: "bfs_inv m {cur} s"
    and cur: "cur \<in> bfs_seen m s"
    and cond: "cond \<longleftrightarrow> (cur, b) \<in> passage m"
  shows "bfs_inv m {cur} (bfs_push cond b s) \<and>
         bfs_seen m s \<subseteq> bfs_seen m (bfs_push cond b s) \<and>
         ((cur, b) \<in> passage m \<longrightarrow> b \<in> bfs_seen m (bfs_push cond b s)) \<and>
         bfs_measure m (bfs_push cond b s) = bfs_measure m s"
proof (cases s)
  case (fields vis q cnt)
  let ?N = "grid_size m"
  let ?V = "visited_cells ?N vis"
  from inv fields have vs: "vshaped ?N vis" and q: "set q \<subseteq> ?V" and cnt: "cnt = int (card ?V)"
    and reach: "?V \<subseteq> reachable m (0, 0)" and z: "(0, 0) \<in> ?V"
    and cl: "\<forall>a \<in> ?V - set q - {cur}. \<forall>b. (a, b) \<in> passage m \<longrightarrow> b \<in> ?V"
    by (simp_all add: bfs_inv_def)
  from cur fields have curV: "cur \<in> ?V" by (simp add: bfs_seen_def)
  show ?thesis
  proof (cases "cond \<and> \<not> entry vis (fst b) (snd b)")
    case True
    with cond have pb: "(cur, b) \<in> passage m" by simp
    then have bc: "b \<in> cells ?N" by (auto dest: passage_cells)
    from True have bV: "b \<notin> ?V" by (cases b) (simp add: visited_cells_def)
    let ?vis = "assign vis (fst b) (snd b) True"
    have V': "visited_cells ?N ?vis = insert b ?V"
      using visited_cells_assign [OF vs, of "fst b" "snd b"] bc by simp
    have push: "bfs_push cond b s = (?vis, q @ [b], cnt + 1)"
      using True fields by (simp add: bfs_push_def)
    have fin: "finite ?V" by (rule finite_visited_cells)
    have c1: "cnt + 1 = int (card (insert b ?V))"
      using cnt bV fin by simp
    have "((0, 0), cur) \<in> (passage m)\<^sup>*"
      using reach curV by (auto simp: reachable_def)
    with pb have "((0, 0), b) \<in> (passage m)\<^sup>*" by (rule rtrancl_into_rtrancl [rotated])
    then have r1: "insert b ?V \<subseteq> reachable m (0, 0)" using reach by (simp add: reachable_def)
    have cl1: "\<forall>a \<in> insert b ?V - set (q @ [b]) - {cur}. \<forall>b'. (a, b') \<in> passage m \<longrightarrow> b' \<in> insert b ?V"
      using cl by auto
    have q1: "set (q @ [b]) \<subseteq> insert b ?V" using q by auto
    have z1: "(0, 0) \<in> insert b ?V" using z by simp
    have "bfs_inv m {cur} (bfs_push cond b s)"
      unfolding push bfs_inv_def prod.case V'
      using vshaped_assign [OF vs] q1 c1 r1 z1 cl1 by blast
    moreover have "bfs_seen m s \<subseteq> bfs_seen m (bfs_push cond b s)"
      unfolding push unfolding fields by (auto simp add: bfs_seen_def V')
    moreover have "b \<in> bfs_seen m (bfs_push cond b s)"
      unfolding push by (simp add: bfs_seen_def V')
    moreover have "bfs_measure m (bfs_push cond b s) = bfs_measure m s"
    proof -
      have e: "cells ?N - insert b ?V = (cells ?N - ?V) - {b}" by auto
      have i: "b \<in> cells ?N - ?V" using bc bV by simp
      have f: "finite (cells ?N - ?V)" using finite_cells by simp
      from i f have "card (cells ?N - ?V) > 0" using card_gt_0_iff by blast
      moreover have "card ((cells ?N - ?V) - {b}) = card (cells ?N - ?V) - 1"
        using i by (rule card_Diff_singleton)
      ultimately have "card (cells ?N - insert b ?V) + 1 = card (cells ?N - ?V)"
        unfolding e by simp
      then show ?thesis unfolding push unfolding fields by (simp add: bfs_measure_def V')
    qed
    ultimately show ?thesis by blast
  next
    case False
    then have push: "bfs_push cond b s = s" using fields by (auto simp: bfs_push_def)
    have "b \<in> ?V" if "(cur, b) \<in> passage m"
    proof -
      from that cond False have "entry vis (fst b) (snd b)" by simp
      moreover from that have "b \<in> cells ?N" by (auto dest: passage_cells)
      ultimately show ?thesis by (cases b) (auto simp: visited_cells_def)
    qed
    then show ?thesis unfolding push using inv fields by (simp add: bfs_seen_def)
  qed
qed

lemma bfs_body_step:
  assumes inv: "bfs_inv m {} (vis, (row, col) # q, cnt)"
  shows "bfs_inv m {} (bfs_body m row col (vis, q, cnt)) \<and>
         bfs_measure m (bfs_body m row col (vis, q, cnt)) < bfs_measure m (vis, (row, col) # q, cnt)"
proof -
  let ?cur = "(row, col)"
  let ?s0 = "(vis, q, cnt)"
  from inv have curV: "?cur \<in> bfs_seen m ?s0" by (simp add: bfs_inv_def bfs_seen_def)
  then have cc: "?cur \<in> cells (grid_size m)" using visited_cells_subset by (auto simp: bfs_seen_def)
  have e0: "visited_cells (grid_size m) vis - set q - {?cur}
      = visited_cells (grid_size m) vis - set (?cur # q) - {}" by auto
  have q0: "set q \<subseteq> visited_cells (grid_size m) vis"
    using inv by (simp add: bfs_inv_def)
  have i0: "bfs_inv m {?cur} ?s0"
    using inv q0 unfolding bfs_inv_def prod.case e0 by blast
  define s1 where "s1 = bfs_push (row > 0 \<and> \<not> entry (horizontal_walls m) row col) (row - 1, col) ?s0"
  define s2 where "s2 = bfs_push (row < grid_size m - 1 \<and> \<not> entry (horizontal_walls m) (row + 1) col) (row + 1, col) s1"
  define s3 where "s3 = bfs_push (col > 0 \<and> \<not> entry (vertical_walls m) row col) (row, col - 1) s2"
  define s4 where "s4 = bfs_push (col < grid_size m - 1 \<and> \<not> entry (vertical_walls m) row (col + 1)) (row, col + 1) s3"
  have body: "bfs_body m row col ?s0 = s4"
    by (simp add: bfs_body_push s1_def s2_def s3_def s4_def)
  have p1: "bfs_inv m {?cur} s1 \<and> bfs_seen m ?s0 \<subseteq> bfs_seen m s1 \<and>
      (((row, col), (row - 1, col)) \<in> passage m \<longrightarrow> (row - 1, col) \<in> bfs_seen m s1) \<and>
      bfs_measure m s1 = bfs_measure m ?s0"
    unfolding s1_def by (rule bfs_push_step [OF i0 curV]) (rule passage_up [OF cc, symmetric])
  then have c1: "?cur \<in> bfs_seen m s1" using curV by blast
  have p2: "bfs_inv m {?cur} s2 \<and> bfs_seen m s1 \<subseteq> bfs_seen m s2 \<and>
      (((row, col), (row + 1, col)) \<in> passage m \<longrightarrow> (row + 1, col) \<in> bfs_seen m s2) \<and>
      bfs_measure m s2 = bfs_measure m s1"
    unfolding s2_def by (rule bfs_push_step [OF conjunct1 [OF p1] c1]) (rule passage_down [OF cc, symmetric])
  then have c2: "?cur \<in> bfs_seen m s2" using c1 by blast
  have p3: "bfs_inv m {?cur} s3 \<and> bfs_seen m s2 \<subseteq> bfs_seen m s3 \<and>
      (((row, col), (row, col - 1)) \<in> passage m \<longrightarrow> (row, col - 1) \<in> bfs_seen m s3) \<and>
      bfs_measure m s3 = bfs_measure m s2"
    unfolding s3_def by (rule bfs_push_step [OF conjunct1 [OF p2] c2]) (rule passage_left [OF cc, symmetric])
  then have c3: "?cur \<in> bfs_seen m s3" using c2 by blast
  have p4: "bfs_inv m {?cur} s4 \<and> bfs_seen m s3 \<subseteq> bfs_seen m s4 \<and>
      (((row, col), (row, col + 1)) \<in> passage m \<longrightarrow> (row, col + 1) \<in> bfs_seen m s4) \<and>
      bfs_measure m s4 = bfs_measure m s3"
    unfolding s4_def by (rule bfs_push_step [OF conjunct1 [OF p3] c3]) (rule passage_right [OF cc, symmetric])
  have n1: "((row, col), (row - 1, col)) \<in> passage m \<longrightarrow> (row - 1, col) \<in> bfs_seen m s4"
    using p1 p2 p3 p4 by blast
  have n2: "((row, col), (row + 1, col)) \<in> passage m \<longrightarrow> (row + 1, col) \<in> bfs_seen m s4"
    using p2 p3 p4 by blast
  have n3: "((row, col), (row, col - 1)) \<in> passage m \<longrightarrow> (row, col - 1) \<in> bfs_seen m s4"
    using p3 p4 by blast
  have n4: "((row, col), (row, col + 1)) \<in> passage m \<longrightarrow> (row, col + 1) \<in> bfs_seen m s4"
    using p4 by blast
  have all: "\<forall>b. (?cur, b) \<in> passage m \<longrightarrow> b \<in> bfs_seen m s4"
    using n1 n2 n3 n4 passage_neighbour by blast
  have i4: "bfs_inv m {?cur} s4" using p4 by blast
  have "bfs_inv m {} s4"
  proof -
    obtain v4 q4 c4 where s4: "s4 = (v4, q4, c4)" by (cases s4)
    let ?V4 = "visited_cells (grid_size m) v4"
    from i4 have base: "vshaped (grid_size m) v4 \<and> set q4 \<subseteq> ?V4 \<and> c4 = int (card ?V4) \<and>
        ?V4 \<subseteq> reachable m (0, 0) \<and> (0, 0) \<in> ?V4"
      and cl: "\<forall>a \<in> ?V4 - set q4 - {?cur}. \<forall>b. (a, b) \<in> passage m \<longrightarrow> b \<in> ?V4"
      unfolding s4 bfs_inv_def prod.case by blast+
    from all have cl0: "\<forall>b. (?cur, b) \<in> passage m \<longrightarrow> b \<in> ?V4"
      unfolding s4 bfs_seen_def prod.case .
    have "\<forall>a \<in> ?V4 - set q4 - {}. \<forall>b. (a, b) \<in> passage m \<longrightarrow> b \<in> ?V4"
    proof (intro ballI allI impI)
      fix a b assume a: "a \<in> ?V4 - set q4 - {}" and p: "(a, b) \<in> passage m"
      show "b \<in> ?V4"
      proof (cases "a = ?cur")
        case True
        with p cl0 show ?thesis by blast
      next
        case False
        with a have "a \<in> ?V4 - set q4 - {?cur}" by blast
        with cl p show ?thesis by blast
      qed
    qed
    with base show ?thesis unfolding s4 bfs_inv_def prod.case by blast
  qed
  moreover have "bfs_measure m s4 = bfs_measure m ?s0"
    using p1 p2 p3 p4 by simp
  moreover have "bfs_measure m ?s0 < bfs_measure m (vis, (row, col) # q, cnt)"
    by (simp add: bfs_measure_def)
  ultimately show ?thesis unfolding body by simp
qed

lemma bfs_loop_correct:
  "bfs_inv m {} s \<Longrightarrow> bfs_loop m s = Some (int (card (reachable m (0, 0))))"
proof (induction "bfs_measure m s" arbitrary: s rule: less_induct)
  case less
  obtain vis q cnt where s: "s = (vis, q, cnt)" by (cases s)
  show ?case
  proof (cases q)
    case Nil
    let ?V = "visited_cells (grid_size m) vis"
    from less.prems s Nil have cnt: "cnt = int (card ?V)" and sub: "?V \<subseteq> reachable m (0, 0)"
      and z: "(0, 0) \<in> ?V" and cl: "\<forall>a \<in> ?V. \<forall>b. (a, b) \<in> passage m \<longrightarrow> b \<in> ?V"
      by (auto simp: bfs_inv_def)
    have "b \<in> ?V" if "((0, 0), b) \<in> (passage m)\<^sup>*" for b
      using that by (induction rule: rtrancl_induct) (use z cl in auto)
    then have "reachable m (0, 0) \<subseteq> ?V" by (auto simp: reachable_def)
    with sub have "?V = reachable m (0, 0)" by auto
    then show ?thesis unfolding s Nil using cnt by (subst bfs_loop.simps) simp
  next
    case (Cons cur q')
    obtain row col where cur: "cur = (row, col)" by (cases cur)
    from less.prems s Cons cur have inv: "bfs_inv m {} (vis, (row, col) # q', cnt)" by simp
    note st = bfs_body_step [OF inv]
    have "bfs_loop m s = bfs_loop m (bfs_body m row col (vis, q', cnt))"
      unfolding s Cons cur by (subst bfs_loop.simps) simp
    also have "\<dots> = Some (int (card (reachable m (0, 0))))"
      using less.hyps [of "bfs_body m row col (vis, q', cnt)"] st s Cons cur by simp
    finally show ?thesis .
  qed
qed

lemma is_all_connected_reachable:
  assumes "1 \<le> grid_size m"
  shows "is_all_connected m = Some (card (reachable m (0, 0)) = nat (grid_size m * grid_size m))"
proof -
  let ?N = "grid_size m"
  let ?v0 = "replicate (nat ?N) (replicate (nat ?N) False)"
  have z: "(0, 0) \<in> cells ?N" using assms by (simp add: cells_def)
  have V: "visited_cells ?N (assign ?v0 0 0 True) = {(0, 0)}"
    using visited_cells_assign [OF vshaped_replicate z] by (simp add: visited_cells_replicate)
  have "bfs_inv m {} (assign ?v0 0 0 True, [(0, 0)], 1)"
    unfolding bfs_inv_def using vshaped_assign [OF vshaped_replicate]
    by (simp add: V reachable_def)
  from bfs_loop_correct [OF this] have "bfs_loop m (assign ?v0 0 0 True, [(0, 0)], 1)
      = Some (int (card (reachable m (0, 0))))" .
  moreover have "(int (card (reachable m (0, 0))) = ?N * ?N)
      \<longleftrightarrow> (card (reachable m (0, 0)) = nat (?N * ?N))"
  proof -
    have "0 \<le> ?N * ?N" by simp
    then show ?thesis by linarith
  qed
  ultimately show ?thesis
    by (simp add: is_all_connected_def Let_def)
qed

lemma connected_iff_reachable:
  assumes "1 \<le> grid_size m"
  shows "connected m \<longleftrightarrow> card (reachable m (0, 0)) = nat (grid_size m * grid_size m)"
proof -
  let ?N = "grid_size m"
  have z: "(0, 0) \<in> cells ?N" using assms by (simp add: cells_def)
  have sub: "reachable m (0, 0) \<subseteq> cells ?N" by (rule reachable_subset_cells [OF z])
  have cc: "card (cells ?N) = nat (?N * ?N)" using assms by (simp add: card_cells nat_mult_distrib)
  show ?thesis
  proof
    assume "connected m"
    then have "cells ?N \<subseteq> reachable m (0, 0)" using z by (auto simp: connected_def reachable_def)
    with sub have "reachable m (0, 0) = cells ?N" by auto
    then show "card (reachable m (0, 0)) = nat (?N * ?N)" using cc by simp
  next
    assume "card (reachable m (0, 0)) = nat (?N * ?N)"
    with cc have "card (reachable m (0, 0)) = card (cells ?N)" by simp
    with sub have eq: "reachable m (0, 0) = cells ?N"
      by (intro card_subset_eq finite_cells)
    show "connected m"
      unfolding connected_def
    proof (intro ballI)
      fix a b assume "a \<in> cells ?N" "b \<in> cells ?N"
      with eq have "((0, 0), a) \<in> (passage m)\<^sup>*" "((0, 0), b) \<in> (passage m)\<^sup>*"
        by (auto simp: reachable_def)
      then have "(a, (0, 0)) \<in> (passage m)\<^sup>*" "((0, 0), b) \<in> (passage m)\<^sup>*"
        by (simp_all add: passage_rtrancl_sym)
      then show "(a, b) \<in> (passage m)\<^sup>*" by (rule rtrancl_trans)
    qed
  qed
qed

lemma is_all_connected_connected:
  "1 \<le> grid_size m \<Longrightarrow> is_all_connected m = Some (connected m)"
  by (simp add: is_all_connected_reachable connected_iff_reachable)

text \<open>
  C3. On a wall state of the allocated shape with \<open>grid_size \<ge> 1\<close>, the checker returns,
  and returns true exactly when the number of cells reachable from \<open>(0, 0)\<close> through
  absent walls is \<open>grid_size\<^sup>2\<close>. The checker only reads the maze: its model is a
  function of the maze that returns the answer alone, so the wall state after a call is the
  wall state before it and two calls on one state give one answer.
\<close>

theorem checker_counts_reachable:
  assumes "1 \<le> grid_size m" and "shaped m"
  shows "is_all_connected m = Some (card (reachable m (0, 0)) = nat (grid_size m * grid_size m))"
  using assms(1) by (rule is_all_connected_reachable)

theorem checker_counts_reachable_witness:
  "1 \<le> grid_size (MazeGenerator 2 1 0 ''maze.sdf'') \<and> shaped (MazeGenerator 2 1 0 ''maze.sdf'') \<and>
   is_all_connected (MazeGenerator 2 1 0 ''maze.sdf'')
     = Some (card (reachable (MazeGenerator 2 1 0 ''maze.sdf'') (0, 0))
             = nat (grid_size (MazeGenerator 2 1 0 ''maze.sdf'') * grid_size (MazeGenerator 2 1 0 ''maze.sdf'')))"
proof -
  have g: "1 \<le> grid_size (MazeGenerator 2 1 0 ''maze.sdf'')"
    by (simp add: MazeGenerator_def)
  have s: "shaped (MazeGenerator 2 1 0 ''maze.sdf'')"
    by (simp add: MazeGenerator_def shaped_def)
  from g s checker_counts_reachable [OF g s] show ?thesis by blast
qed

section \<open>Setting one wall entry\<close>

definition same_config :: "maze \<Rightarrow> maze \<Rightarrow> bool" where
  "same_config m m' \<longleftrightarrow> grid_size m' = grid_size m \<and> cell_size m' = cell_size m \<and>
     min_walls m' = min_walls m \<and> output_file m' = output_file m \<and>
     wall_height m' = wall_height m \<and> wall_thickness m' = wall_thickness m"

lemma same_config_refl: "same_config m m"
  by (simp add: same_config_def)

lemma same_config_trans: "same_config m m' \<Longrightarrow> same_config m' m'' \<Longrightarrow> same_config m m''"
  by (simp add: same_config_def)

lemma same_config_set_path: "same_config m (set_path m p v)"
  by (cases p) (simp add: same_config_def set_path_def)

lemma grid_size_set_path: "grid_size (set_path m p v) = grid_size m"
  by (cases p) (simp add: set_path_def)

lemma shaped_set_path: "shaped m \<Longrightarrow> shaped (set_path m p v)"
proof (cases p)
  case (fields k r c)
  assume s: "shaped m"
  show ?thesis
  proof (cases "k = CHR ''h''")
    case True
    have "\<forall>row \<in> set (assign (horizontal_walls m) r c v). length row = nat (grid_size m)"
      using s by (intro rows_assign) (simp add: shaped_def)
    then show ?thesis using s True fields
      by (simp add: shaped_def set_path_def length_assign)
  next
    case False
    have "\<forall>row \<in> set (assign (vertical_walls m) r c v). length row = nat (grid_size m + 1)"
      using s by (intro rows_assign) (simp add: shaped_def)
    then show ?thesis using s False fields
      by (simp add: shaped_def set_path_def length_assign)
  qed
qed

lemma horizontal_entry_set_path:
  assumes "shaped m" "(CHR ''h'', r, c) \<in> interior (grid_size m)" "0 \<le> r'" "0 \<le> c'"
  shows "entry (horizontal_walls (set_path m (CHR ''h'', r, c) v)) r' c'
           = (if r' = r \<and> c' = c then v else entry (horizontal_walls m) r' c')"
proof -
  from assms(2) have rc: "1 \<le> r" "r \<le> grid_size m - 1" "0 \<le> c" "c \<le> grid_size m - 1"
    by (auto simp: interior_def)
  with assms(1) have l: "nat r < length (horizontal_walls m)" by (simp add: shaped_def)
  then have "horizontal_walls m ! nat r \<in> set (horizontal_walls m)" by simp
  with assms(1) rc have "nat c < length (horizontal_walls m ! nat r)" by (simp add: shaped_def)
  with l rc assms(3,4) show ?thesis
    by (simp add: set_path_def entry_assign)
qed

lemma vertical_entry_set_path:
  assumes "shaped m" "(k, r, c) \<in> interior (grid_size m)" "k \<noteq> CHR ''h''" "0 \<le> r'" "0 \<le> c'"
  shows "entry (vertical_walls (set_path m (k, r, c) v)) r' c'
           = (if r' = r \<and> c' = c then v else entry (vertical_walls m) r' c')"
proof -
  from assms(2,3) have rc: "0 \<le> r" "r \<le> grid_size m - 1" "1 \<le> c" "c \<le> grid_size m - 1"
    by (auto simp: interior_def)
  with assms(1) have l: "nat r < length (vertical_walls m)" by (simp add: shaped_def)
  then have "vertical_walls m ! nat r \<in> set (vertical_walls m)" by simp
  with assms(1) rc have "nat c < length (vertical_walls m ! nat r)" by (simp add: shaped_def)
  with l rc assms(3,4,5) show ?thesis
    by (simp add: set_path_def entry_assign)
qed

lemma is_open_set_path:
  assumes "shaped m" "p \<in> interior (grid_size m)" "q \<in> interior (grid_size m)"
  shows "is_open (set_path m p v) q = (if q = p then \<not> v else is_open m q)"
proof (cases p)
  case p: (fields k r c)
  obtain k' r' c' where q: "q = (k', r', c')" by (cases q)
  from assms(3) q have nn: "0 \<le> r'" "0 \<le> c'" by (auto simp: interior_def)
  from assms(2,3) p q have kk: "k = CHR ''h'' \<or> k = CHR ''v''" "k' = CHR ''h'' \<or> k' = CHR ''v''"
    by (auto simp: interior_def)
  show ?thesis
  proof (cases "k = CHR ''h''")
    case True
    show ?thesis
    proof (cases "k' = CHR ''h''")
      case h: True
      from horizontal_entry_set_path [OF assms(1) assms(2) [unfolded p True] nn, of v]
      show ?thesis using True h by (simp add: p q is_open_def)
    next
      case False
      then show ?thesis using True by (simp add: p q is_open_def set_path_def)
    qed
  next
    case False
    show ?thesis
    proof (cases "k' = CHR ''h''")
      case True
      then show ?thesis using False by (simp add: p q is_open_def set_path_def)
    next
      case v: False
      from vertical_entry_set_path [OF assms(1) assms(2) [unfolded p] False nn, of v]
      show ?thesis using False v kk by (auto simp add: p q is_open_def)
    qed
  qed
qed

lemma open_paths_set_path_False:
  assumes "shaped m" "p \<in> interior (grid_size m)"
  shows "open_paths (set_path m p False) = insert p (open_paths m)"
  using is_open_set_path [OF assms, of _ False] assms(2)
  by (auto simp: open_paths_def grid_size_set_path)

lemma open_paths_set_path_True:
  assumes "shaped m" "p \<in> interior (grid_size m)"
  shows "open_paths (set_path m p True) = open_paths m - {p}"
  using is_open_set_path [OF assms, of _ True] assms(2)
  by (auto simp: open_paths_def grid_size_set_path split: if_splits)

lemma boundary_set_path:
  assumes "shaped m" "p \<in> interior (grid_size m)" "boundary_intact m"
  shows "boundary_intact (set_path m p v)"
proof (cases p)
  case p: (fields k r c)
  show ?thesis
  proof (cases "k = CHR ''h''")
    case True
    from assms(2) p True have rc: "1 \<le> r" "r \<le> grid_size m - 1" by (auto simp: interior_def)
    have h: "entry (horizontal_walls (set_path m p v)) r' c' = entry (horizontal_walls m) r' c'"
      if "r' = 0 \<or> r' = grid_size m" "0 \<le> c'" for r' c'
      using horizontal_entry_set_path [OF assms(1) assms(2) [unfolded p True], of r' c' v] that rc
      by (auto simp: p True)
    have v: "vertical_walls (set_path m p v) = vertical_walls m"
      by (simp add: p True set_path_def)
    show ?thesis using assms(3) rc
      unfolding boundary_intact_def grid_size_set_path v by (simp add: h)
  next
    case False
    from assms(2) p False have rc: "1 \<le> c" "c \<le> grid_size m - 1" by (auto simp: interior_def)
    have h: "entry (vertical_walls (set_path m p v)) r' c' = entry (vertical_walls m) r' c'"
      if "c' = 0 \<or> c' = grid_size m" "0 \<le> r'" for r' c'
      using vertical_entry_set_path [OF assms(1) assms(2) [unfolded p] False, of r' c' v] that rc
      by (auto simp: p)
    have v: "horizontal_walls (set_path m p v) = horizontal_walls m"
      using False by (simp add: p set_path_def)
    show ?thesis using assms(3) rc
      unfolding boundary_intact_def grid_size_set_path v by (simp add: h)
  qed
qed

lemma set_path_undo:
  assumes "shaped m" "p \<in> open_paths m"
  shows "set_path (set_path m p True) p False = m"
proof (cases p)
  case p: (fields k r c)
  from assms(2) have i: "p \<in> interior (grid_size m)" and o: "is_open m p"
    by (simp_all add: open_paths_def)
  show ?thesis
  proof (cases "k = CHR ''h''")
    case True
    from i p True have "1 \<le> r" "r \<le> grid_size m - 1" by (auto simp: interior_def)
    with assms(1) have l: "nat r < length (horizontal_walls m)" by (simp add: shaped_def)
    from o p True have "entry (horizontal_walls m) r c = False" by (simp add: is_open_def)
    from assign_assign_same [OF l this] show ?thesis
      by (simp add: p True set_path_def)
  next
    case False
    from i p False have "0 \<le> r" "r \<le> grid_size m - 1" by (auto simp: interior_def)
    with assms(1) have l: "nat r < length (vertical_walls m)" by (simp add: shaped_def)
    from o p False have "entry (vertical_walls m) r c = False" by (simp add: is_open_def)
    from assign_assign_same [OF l this] show ?thesis
      using False by (simp add: p set_path_def)
  qed
qed

section \<open>The wall removed by the carver\<close>

definition wall_towards :: "int \<Rightarrow> int \<Rightarrow> int \<Rightarrow> int \<Rightarrow> path" where
  "wall_towards row col dr dc =
     (if dr = 1 then (CHR ''h'', row + 1, col)
      else if dr = -1 then (CHR ''h'', row, col)
      else if dc = 1 then (CHR ''v'', row, col + 1)
      else (CHR ''v'', row, col))"

definition directions4 :: "(int \<times> int) set" where
  "directions4 = {(0, 1), (1, 0), (0, -1), (-1, 0)}"

lemma remove_wall_set_path:
  "(dr, dc) \<in> directions4 \<Longrightarrow>
   remove_wall m row col dr dc = set_path m (wall_towards row col dr dc) False"
  by (auto simp: directions4_def remove_wall_def wall_towards_def set_path_def)

lemma wall_towards_interior:
  assumes "(dr, dc) \<in> directions4" "(row, col) \<in> cells n" "(row + dr, col + dc) \<in> cells n"
  shows "wall_towards row col dr dc \<in> interior n"
    and "ends (wall_towards row col dr dc) = ((row, col), (row + dr, col + dc)) \<or>
         ends (wall_towards row col dr dc) = ((row + dr, col + dc), (row, col))"
  using assms by (auto simp: directions4_def wall_towards_def interior_def ends_def cells_def)

section \<open>Invariant of the carver\<close>

text \<open>
  \<open>carve_inv src\<close> holds between the steps of the carver started at \<open>src\<close>: every open
  interior entry joins two visited cells, every visited cell is reachable from \<open>src\<close>,
  there is one open entry less than there are visited cells, the boundary is intact, and the
  log lists the visited cells without repetition. \<open>carve_post\<close> relates the state before a
  call to the state it returns: the invariant holds again, no flag is reset, and every newly
  visited cell has all its grid neighbours visited. \<open>good\<close> is the outcome of a call: it
  returns such a state, or it raises \<open>RecursionError\<close>, and that only when fewer nested
  calls are allowed than cells are unvisited.
\<close>

definition seen :: "carve_state \<Rightarrow> (int \<times> int) set" where
  "seen s = (case s of (m, visited, rs, entered) \<Rightarrow> visited_cells (grid_size m) visited)"

definition nbrs :: "int \<Rightarrow> int \<times> int \<Rightarrow> (int \<times> int) set" where
  "nbrs n a = {b \<in> cells n. \<exists>d \<in> directions4. b = (fst a + fst d, snd a + snd d)}"

definition carve_inv :: "int \<times> int \<Rightarrow> carve_state \<Rightarrow> bool" where
  "carve_inv src s = (case s of (m, visited, rs, entered) \<Rightarrow>
      shaped m \<and> vshaped (grid_size m) visited \<and> boundary_intact m \<and>
      (\<forall>p \<in> open_paths m. fst (ends p) \<in> visited_cells (grid_size m) visited \<and>
                            snd (ends p) \<in> visited_cells (grid_size m) visited) \<and>
      (\<forall>a \<in> visited_cells (grid_size m) visited. (src, a) \<in> (passage m)\<^sup>*) \<and>
      card (open_paths m) + 1 = card (visited_cells (grid_size m) visited) \<and>
      distinct entered \<and> set entered = visited_cells (grid_size m) visited)"

definition carve_post :: "int \<times> int \<Rightarrow> carve_state \<Rightarrow> carve_state \<Rightarrow> bool" where
  "carve_post src s s' \<longleftrightarrow> carve_inv src s' \<and> same_config (fst s) (fst s') \<and>
     seen s \<subseteq> seen s' \<and> (\<forall>a \<in> seen s' - seen s. nbrs (grid_size (fst s)) a \<subseteq> seen s')"

definition good ::
  "nat \<Rightarrow> int \<times> int \<Rightarrow> carve_state \<Rightarrow> error + carve_state \<Rightarrow> (int \<times> int) set \<Rightarrow> bool" where
  "good d src s res X = (case res of
      Inl e \<Rightarrow> e = RecursionError \<and> d < card (cells (grid_size (fst s)) - seen s)
    | Inr s' \<Rightarrow> carve_post src s s' \<and> X \<subseteq> seen s')"

definition carve_spec :: "nat \<Rightarrow> bool" where
  "carve_spec d \<longleftrightarrow> (\<forall>src r c m vis rs entered.
      (r, c) \<in> cells (grid_size m) \<and> \<not> entry vis r c \<and> vshaped (grid_size m) vis \<and>
      carve_inv src (m, assign vis r c True, rs, entered @ [(r, c)])
      \<longrightarrow> good d src (m, vis, rs, entered) (dfs_carve d r c (m, vis, rs, entered)) {(r, c)})"

lemma passage_mono:
  assumes "open_paths m \<subseteq> open_paths m'"
  shows "(passage m)\<^sup>* \<subseteq> (passage m')\<^sup>*"
proof (rule rtrancl_mono)
  show "passage m \<subseteq> passage m'" using assms unfolding passage_def by blast
qed

lemma carve_inv_open:
  assumes inv: "carve_inv src (m, vis, rs, entered)"
    and a: "(r, c) \<in> visited_cells (grid_size m) vis"
    and d: "(dr, dc) \<in> directions4"
    and b: "(r + dr, c + dc) \<in> cells (grid_size m)"
    and nb: "\<not> entry vis (r + dr) (c + dc)"
  shows "carve_inv src (remove_wall m r c dr dc, assign vis (r + dr) (c + dc) True, rs',
           entered @ [(r + dr, c + dc)])"
proof -
  let ?N = "grid_size m"
  let ?V = "visited_cells ?N vis"
  let ?a = "(r, c)" and ?b = "(r + dr, c + dc)"
  let ?p = "wall_towards r c dr dc"
  let ?m = "set_path m ?p False"
  from inv have sh: "shaped m" and vs: "vshaped ?N vis" and bd: "boundary_intact m"
    and en: "\<forall>p \<in> open_paths m. fst (ends p) \<in> ?V \<and> snd (ends p) \<in> ?V"
    and re: "\<forall>a \<in> ?V. (src, a) \<in> (passage m)\<^sup>*"
    and cd: "card (open_paths m) + 1 = card ?V"
    and lg: "distinct entered" "set entered = ?V"
    by (simp_all add: carve_inv_def)
  from a have ac: "?a \<in> cells ?N" by (simp add: visited_cells_def)
  note wt = wall_towards_interior [OF d ac b]
  have rm: "remove_wall m r c dr dc = ?m" by (rule remove_wall_set_path [OF d])
  have gs: "grid_size ?m = ?N" by (rule grid_size_set_path)
  have V2: "visited_cells ?N (assign vis (r + dr) (c + dc) True) = insert ?b ?V"
    by (rule visited_cells_assign [OF vs b])
  have O2: "open_paths ?m = insert ?p (open_paths m)"
    by (rule open_paths_set_path_False [OF sh wt(1)])
  from nb have bV: "?b \<notin> ?V" by (simp add: visited_cells_def)
  have pO: "?p \<notin> open_paths m"
  proof
    assume "?p \<in> open_paths m"
    with en have "fst (ends ?p) \<in> ?V \<and> snd (ends ?p) \<in> ?V" by blast
    with wt(2) have "?b \<in> ?V" by auto
    with bV show False ..
  qed
  have e2: "\<forall>p \<in> insert ?p (open_paths m). fst (ends p) \<in> insert ?b ?V \<and> snd (ends p) \<in> insert ?b ?V"
    using en wt(2) a by auto
  have mono: "(passage m)\<^sup>* \<subseteq> (passage ?m)\<^sup>*"
    by (rule passage_mono) (simp add: O2 subset_insertI)
  have ab: "(?a, ?b) \<in> passage ?m"
    unfolding passage_def O2 using wt(2) by blast
  have r2: "\<forall>x \<in> insert ?b ?V. (src, x) \<in> (passage ?m)\<^sup>*"
  proof
    fix x assume "x \<in> insert ?b ?V"
    then show "(src, x) \<in> (passage ?m)\<^sup>*"
    proof
      assume "x = ?b"
      moreover from re a mono have "(src, ?a) \<in> (passage ?m)\<^sup>*" by blast
      ultimately show ?thesis using ab by (simp add: rtrancl_into_rtrancl)
    next
      assume "x \<in> ?V"
      with re mono show ?thesis by blast
    qed
  qed
  have c2: "card (insert ?p (open_paths m)) + 1 = card (insert ?b ?V)"
    using cd pO bV finite_open_paths [of m] finite_visited_cells [of ?N vis] by simp
  have l2: "distinct (entered @ [?b])" "set (entered @ [?b]) = insert ?b ?V"
    using lg bV by auto
  show ?thesis
    unfolding rm carve_inv_def prod.case gs V2 O2
    using shaped_set_path [OF sh] vshaped_assign [OF vs] boundary_set_path [OF sh wt(1) bd]
      e2 r2 c2 l2 by blast
qed

lemma carve_post_refl: "carve_inv src s \<Longrightarrow> carve_post src s s"
  by (simp add: carve_post_def same_config_refl)

lemma carve_post_trans:
  assumes "carve_post src s s'" "carve_post src s' s''"
  shows "carve_post src s s''"
proof -
  from assms(1) have g: "grid_size (fst s') = grid_size (fst s)"
    by (simp add: carve_post_def same_config_def)
  have "nbrs (grid_size (fst s)) a \<subseteq> seen s''" if "a \<in> seen s'' - seen s" for a
  proof (cases "a \<in> seen s'")
    case True
    with that assms(1) have "nbrs (grid_size (fst s)) a \<subseteq> seen s'" by (simp add: carve_post_def)
    with assms(2) show ?thesis by (auto simp: carve_post_def)
  next
    case False
    with that assms(2) g show ?thesis by (simp add: carve_post_def)
  qed
  with assms show ?thesis
    unfolding carve_post_def using same_config_trans by blast
qed

lemma card_unseen_mono:
  assumes "seen s \<subseteq> seen s'"
  shows "card (cells n - seen s') \<le> card (cells n - seen s)"
  by (rule card_mono) (use assms finite_cells in auto)

lemma dfs_for_spec:
  assumes spec: "carve_spec d"
  shows "carve_inv src s \<Longrightarrow> (r, c) \<in> seen s \<Longrightarrow> set ds \<subseteq> directions4 \<Longrightarrow>
     good d src s (dfs_for d r c ds s)
       ({(r + fst x, c + snd x) | x. x \<in> set ds} \<inter> cells (grid_size (fst s)))"
proof (induction ds arbitrary: s)
  case Nil
  then show ?case by (simp add: good_def carve_post_refl)
next
  case (Cons x ds)
  obtain dr dc where x: "x = (dr, dc)" by (cases x)
  obtain m vis rs entered where s: "s = (m, vis, rs, entered)" by (cases s)
  let ?N = "grid_size m"
  let ?b = "(r + dr, c + dc)"
  from Cons.prems x have d: "(dr, dc) \<in> directions4" and ds: "set ds \<subseteq> directions4" by simp_all
  from Cons.prems(2) s have a: "(r, c) \<in> visited_cells ?N vis" by (simp add: seen_def)
  show ?case
  proof (cases "?b \<in> cells ?N \<and> \<not> entry vis (r + dr) (c + dc)")
    case True
    then have guard: "0 \<le> r + dr \<and> r + dr < ?N \<and> 0 \<le> c + dc \<and> c + dc < ?N \<and>
        \<not> entry vis (r + dr) (c + dc)" by (simp add: cells_iff)
    let ?m = "remove_wall m r c dr dc"
    let ?s2 = "(?m, vis, rs, entered)"
    have gm: "grid_size ?m = ?N"
      by (simp add: remove_wall_set_path [OF d] grid_size_set_path)
    have sc2: "same_config m ?m"
      by (simp add: remove_wall_set_path [OF d] same_config_set_path)
    have vs: "vshaped ?N vis" using Cons.prems(1) s by (simp add: carve_inv_def)
    have inv2: "carve_inv src (?m, assign vis (r + dr) (c + dc) True, rs, entered @ [?b])"
      using carve_inv_open [OF Cons.prems(1) [unfolded s] a d] True by blast
    have g2: "good d src ?s2 (dfs_carve d (r + dr) (c + dc) ?s2) {?b}"
      using spec [unfolded carve_spec_def, rule_format, of "r + dr" "c + dc" ?m vis src rs entered]
        True vs inv2 gm by simp
    have seen2: "seen ?s2 = seen s" by (simp add: seen_def s gm)
    have step: "dfs_for d r c (x # ds) s =
        (case dfs_carve d (r + dr) (c + dc) ?s2 of Inl e \<Rightarrow> Inl e | Inr s' \<Rightarrow> dfs_for d r c ds s')"
      using guard by (simp add: x s)
    show ?thesis
    proof (cases "dfs_carve d (r + dr) (c + dc) ?s2")
      case (Inl e)
      with g2 show ?thesis
        unfolding step by (simp add: good_def seen2 gm s seen_def)
    next
      case (Inr s3)
      with g2 have p3: "carve_post src ?s2 s3" and b3: "?b \<in> seen s3" by (simp_all add: good_def)
      from p3 have inv3: "carve_inv src s3" and sub3: "seen s \<subseteq> seen s3"
        and g3: "grid_size (fst s3) = ?N"
        by (simp_all add: carve_post_def seen2 same_config_def gm)
      from sub3 Cons.prems(2) have a3: "(r, c) \<in> seen s3" by blast
      note ih = Cons.IH [OF inv3 a3 ds]
      have p03: "carve_post src s s3"
        using p3 sc2 unfolding carve_post_def seen2 by (simp add: s same_config_def gm)
      show ?thesis
      proof (cases "dfs_for d r c ds s3")
        case e: (Inl e)
        with ih have "e = RecursionError" and "d < card (cells ?N - seen s3)"
          by (simp_all add: good_def g3)
        moreover have "card (cells ?N - seen s3) \<le> card (cells ?N - seen s)"
          by (rule card_unseen_mono [OF sub3])
        ultimately show ?thesis unfolding step Inr using e by (simp add: good_def s)
      next
        case r: (Inr s4)
        with ih have p4: "carve_post src s3 s4"
          and x4: "{(r + fst x, c + snd x) | x. x \<in> set ds} \<inter> cells ?N \<subseteq> seen s4"
          by (simp_all add: good_def g3)
        from p4 b3 have b4: "?b \<in> seen s4" by (auto simp: carve_post_def)
        have "carve_post src s s4" by (rule carve_post_trans [OF p03 p4])
        moreover have "{(r + fst y, c + snd y) | y. y \<in> set (x # ds)} \<inter> cells ?N \<subseteq> seen s4"
          using x4 b4 x by auto
        ultimately show ?thesis unfolding step Inr using r by (simp add: good_def s)
      qed
    qed
  next
    case False
    then have step: "dfs_for d r c (x # ds) s = dfs_for d r c ds s"
      by (auto simp add: x s cells_iff)
    note ih = Cons.IH [OF Cons.prems(1,2) ds]
    have bs: "?b \<in> cells ?N \<longrightarrow> ?b \<in> seen s"
      using False by (auto simp: seen_def s visited_cells_def)
    show ?thesis
    proof (cases "dfs_for d r c ds s")
      case (Inl e)
      with ih show ?thesis unfolding step by (simp add: good_def)
    next
      case (Inr s4)
      with ih have p4: "carve_post src s s4"
        and x4: "{(r + fst x, c + snd x) | x. x \<in> set ds} \<inter> cells ?N \<subseteq> seen s4"
        by (simp_all add: good_def s)
      from p4 bs have "?b \<in> cells ?N \<longrightarrow> ?b \<in> seen s4" by (auto simp: carve_post_def)
      with x4 x have "{(r + fst y, c + snd y) | y. y \<in> set (x # ds)} \<inter> cells ?N \<subseteq> seen s4"
        by auto
      with p4 show ?thesis unfolding step Inr by (simp add: good_def s)
    qed
  qed
qed

lemma dfs_carve_spec: "carve_spec d"
proof (induction d)
  case 0
  show ?case
    unfolding carve_spec_def
  proof (intro allI impI)
    fix src r c m vis rs entered
    assume h: "(r, c) \<in> cells (grid_size m) \<and> \<not> entry vis r c \<and> vshaped (grid_size m) vis \<and>
      carve_inv src (m, assign vis r c True, rs, entered @ [(r, c)])"
    then have "(r, c) \<in> cells (grid_size m) - visited_cells (grid_size m) vis"
      by (simp add: visited_cells_def)
    moreover have "finite (cells (grid_size m) - visited_cells (grid_size m) vis)"
      using finite_cells by simp
    ultimately have "0 < card (cells (grid_size m) - visited_cells (grid_size m) vis)"
      using card_gt_0_iff by blast
    then show "good 0 src (m, vis, rs, entered) (dfs_carve 0 r c (m, vis, rs, entered)) {(r, c)}"
      by (simp add: good_def seen_def)
  qed
next
  case (Suc d)
  show ?case
    unfolding carve_spec_def
  proof (intro allI impI)
    fix src r c m vis rs entered
    assume h: "(r, c) \<in> cells (grid_size m) \<and> \<not> entry vis r c \<and> vshaped (grid_size m) vis \<and>
      carve_inv src (m, assign vis r c True, rs, entered @ [(r, c)])"
    let ?N = "grid_size m"
    let ?V = "visited_cells ?N vis"
    let ?s = "(m, vis, rs, entered)"
    obtain dirs rs' where sh: "shuffle [(0::int, 1::int), (1, 0), (0, -1), (-1, 0)] rs = (dirs, rs')"
      by (cases "shuffle [(0::int, 1::int), (1, 0), (0, -1), (-1, 0)] rs")
    let ?s1 = "(m, assign vis r c True, rs', entered @ [(r, c)])"
    from shuffle_props [of "[(0::int, 1::int), (1, 0), (0, -1), (-1, 0)]" rs] sh
    have dset: "set dirs = directions4" by (simp add: directions4_def)
    from h have inv1: "carve_inv src ?s1" by (simp add: carve_inv_def)
    from h have V1: "visited_cells ?N (assign vis r c True) = insert (r, c) ?V"
      by (intro visited_cells_assign) simp_all
    then have a1: "(r, c) \<in> seen ?s1" by (simp add: seen_def)
    have step: "dfs_carve (Suc d) r c ?s = dfs_for d r c dirs ?s1"
      by (simp add: sh)
    from dset have dsub: "set dirs \<subseteq> directions4" by simp
    note g = dfs_for_spec [OF Suc inv1 a1 dsub]
    from h have nV: "(r, c) \<in> cells ?N - ?V" by (simp add: visited_cells_def)
    show "good (Suc d) src ?s (dfs_carve (Suc d) r c ?s) {(r, c)}"
    proof (cases "dfs_for d r c dirs ?s1")
      case (Inl e)
      with g have e: "e = RecursionError" and lt: "d < card (cells ?N - insert (r, c) ?V)"
        by (simp_all add: good_def seen_def V1)
      have "cells ?N - insert (r, c) ?V = (cells ?N - ?V) - {(r, c)}" by auto
      then have "card (cells ?N - insert (r, c) ?V) = card (cells ?N - ?V) - 1"
        using nV by (simp add: card_Diff_singleton)
      with lt have "Suc d < card (cells ?N - ?V)" by simp
      with e show ?thesis unfolding step Inl by (simp add: good_def seen_def)
    next
      case (Inr s')
      with g have p: "carve_post src ?s1 s'"
        and x: "{(r + fst x, c + snd x) | x. x \<in> set dirs} \<inter> cells ?N \<subseteq> seen s'"
        by (simp_all add: good_def)
      from p have sub: "insert (r, c) ?V \<subseteq> seen s'" by (simp add: carve_post_def seen_def V1)
      have nb: "nbrs ?N (r, c) \<subseteq> seen s'"
        using x unfolding dset nbrs_def by auto
      have cl: "nbrs ?N a \<subseteq> seen s'" if "a \<in> seen s' - ?V" for a
      proof (cases "a = (r, c)")
        case True
        with nb show ?thesis by simp
      next
        case False
        with that have "a \<in> seen s' - seen ?s1" by (simp add: seen_def V1)
        with p show ?thesis by (simp add: carve_post_def)
      qed
      have "carve_post src ?s s'"
        using p sub cl unfolding carve_post_def by (simp add: seen_def)
      with sub show ?thesis unfolding step Inr by (simp add: good_def)
    qed
  qed
qed

section \<open>A set of cells closed under grid neighbours is the whole grid\<close>

lemma nbrs_row: "(r, c) \<in> cells n \<Longrightarrow> (r', c) \<in> cells n \<Longrightarrow> r = r' + 1 \<or> r = r' - 1 \<Longrightarrow>
    (r, c) \<in> nbrs n (r', c)"
  unfolding nbrs_def directions4_def by auto

lemma nbrs_col: "(r, c) \<in> cells n \<Longrightarrow> (r, c') \<in> cells n \<Longrightarrow> c = c' + 1 \<or> c = c' - 1 \<Longrightarrow>
    (r, c) \<in> nbrs n (r, c')"
  unfolding nbrs_def directions4_def by auto

lemma closed_row:
  assumes cl: "\<forall>a \<in> S. nbrs n a \<subseteq> S" and s: "(r0, c) \<in> S" "(r0, c) \<in> cells n"
  shows "nat \<bar>r - r0\<bar> = k \<Longrightarrow> (r, c) \<in> cells n \<Longrightarrow> (r, c) \<in> S"
proof (induction k arbitrary: r)
  case 0
  then have "r = r0" by simp
  with s show ?case by simp
next
  case (Suc k)
  define r' where "r' = (if r0 < r then r - 1 else r + 1)"
  from Suc.prems have ne: "r \<noteq> r0" by auto
  have d: "nat \<bar>r' - r0\<bar> = k" using Suc.prems(1) ne by (auto simp: r'_def)
  have c': "(r', c) \<in> cells n" using Suc.prems(2) s(2) ne by (auto simp: r'_def cells_iff)
  from Suc.IH [OF d c'] have "(r', c) \<in> S" .
  moreover have "(r, c) \<in> nbrs n (r', c)"
    by (rule nbrs_row [OF Suc.prems(2) c']) (auto simp: r'_def)
  ultimately show ?case using cl by blast
qed

lemma closed_col:
  assumes cl: "\<forall>a \<in> S. nbrs n a \<subseteq> S" and s: "(r, c0) \<in> S" "(r, c0) \<in> cells n"
  shows "nat \<bar>c - c0\<bar> = k \<Longrightarrow> (r, c) \<in> cells n \<Longrightarrow> (r, c) \<in> S"
proof (induction k arbitrary: c)
  case 0
  then have "c = c0" by simp
  with s show ?case by simp
next
  case (Suc k)
  define c' where "c' = (if c0 < c then c - 1 else c + 1)"
  from Suc.prems have ne: "c \<noteq> c0" by auto
  have d: "nat \<bar>c' - c0\<bar> = k" using Suc.prems(1) ne by (auto simp: c'_def)
  have c'': "(r, c') \<in> cells n" using Suc.prems(2) s(2) ne by (auto simp: c'_def cells_iff)
  from Suc.IH [OF d c''] have "(r, c') \<in> S" .
  moreover have "(r, c) \<in> nbrs n (r, c')"
    by (rule nbrs_col [OF Suc.prems(2) c'']) (auto simp: c'_def)
  ultimately show ?case using cl by blast
qed

lemma closed_is_grid:
  assumes cl: "\<forall>a \<in> S. nbrs n a \<subseteq> S" and s: "(r0, c0) \<in> S" and sub: "S \<subseteq> cells n"
  shows "S = cells n"
proof
  show "S \<subseteq> cells n" by (rule sub)
  show "cells n \<subseteq> S"
  proof
    fix a assume a: "a \<in> cells n"
    obtain r c where rc: "a = (r, c)" by (cases a)
    from s sub have s0: "(r0, c0) \<in> cells n" by blast
    with a rc have m: "(r, c0) \<in> cells n" by (simp add: cells_iff)
    have "(r, c0) \<in> S" by (rule closed_row [OF cl s s0 refl m])
    from closed_col [OF cl this m refl] a rc show "a \<in> S" by simp
  qed
qed

section \<open>Enumerating the interior entries\<close>

definition interior_list :: "int \<Rightarrow> path list" where
  "interior_list n =
     map (\<lambda>(r, c). (CHR ''h'', r, c)) (List.product [1..n - 1] [0..n - 1]) @
     map (\<lambda>(r, c). (CHR ''v'', r, c)) (List.product [0..n - 1] [1..n - 1])"

lemma set_interior_list: "set (interior_list n) = interior n"
  by (auto simp: interior_list_def interior_def)

lemma distinct_interior_list: "distinct (interior_list n)"
  unfolding interior_list_def
  by (auto simp: distinct_map distinct_product inj_on_def)

lemma length_interior_list:
  "1 \<le> n \<Longrightarrow> int (length (interior_list n)) = 2 * n * (n - 1)"
  by (simp add: interior_list_def algebra_simps)

lemma removable_paths_eq: "removable_paths m = filter (is_open m) (interior_list (grid_size m))"
proof -
  have h: "(\<lambda>x. is_open m (CHR ''h'', x)) = (\<lambda>(r, c). \<not> entry (horizontal_walls m) r c)"
    by (auto simp: fun_eq_iff is_open_def)
  have v: "(\<lambda>x. is_open m (CHR ''v'', x)) = (\<lambda>(r, c). \<not> entry (vertical_walls m) r c)"
    by (auto simp: fun_eq_iff is_open_def)
  show ?thesis
    unfolding removable_paths_def Let_def fold_fold_append_if interior_list_def
    by (simp add: filter_map comp_def h v)
qed

lemma set_removable_paths: "set (removable_paths m) = open_paths m"
  by (auto simp: removable_paths_eq set_interior_list open_paths_def)

lemma distinct_removable_paths: "distinct (removable_paths m)"
  by (simp add: removable_paths_eq distinct_interior_list)

lemma length_removable_paths: "length (removable_paths m) = card (open_paths m)"
  using distinct_card [OF distinct_removable_paths, of m] by (simp add: set_removable_paths)

lemma fold_count_if:
  "fold (\<lambda>a acc. if P a then acc + 1 else acc) xs (acc :: int) = acc + int (length (filter P xs))"
  by (induction xs arbitrary: acc) simp_all

lemma fold_fold_count_if:
  "fold (\<lambda>a acc. fold (\<lambda>b acc. if P a b then acc + 1 else acc) ys acc) xs (acc :: int)
     = acc + int (length (filter (\<lambda>(a, b). P a b) (List.product xs ys)))"
proof -
  have "fold (\<lambda>a acc. acc + int (length (filter (P a) ys))) xs acc
     = acc + int (length (filter (\<lambda>(a, b). P a b) (List.product xs ys)))"
    by (induction xs arbitrary: acc) (simp_all add: filter_map comp_def)
  then show ?thesis
    by (simp add: fold_count_if)
qed

lemma count_inner_walls_eq:
  "count_inner_walls m = int (length (filter (\<lambda>p. \<not> is_open m p) (interior_list (grid_size m))))"
proof -
  have h: "(\<lambda>x. \<not> is_open m (CHR ''h'', x)) = (\<lambda>(r, c). entry (horizontal_walls m) r c)"
    by (auto simp: fun_eq_iff is_open_def)
  have v: "(\<lambda>x. \<not> is_open m (CHR ''v'', x)) = (\<lambda>(r, c). entry (vertical_walls m) r c)"
    by (auto simp: fun_eq_iff is_open_def)
  show ?thesis
    unfolding count_inner_walls_def Let_def fold_fold_count_if interior_list_def
    by (simp add: filter_map comp_def h v)
qed

lemma count_inner_walls_card:
  "count_inner_walls m = int (card (interior (grid_size m) - open_paths m))"
proof -
  have "distinct (filter (\<lambda>p. \<not> is_open m p) (interior_list (grid_size m)))"
    by (simp add: distinct_interior_list)
  from distinct_card [OF this]
  have "length (filter (\<lambda>p. \<not> is_open m p) (interior_list (grid_size m)))
      = card {p \<in> interior (grid_size m). \<not> is_open m p}"
    by (simp add: set_interior_list)
  moreover have "{p \<in> interior (grid_size m). \<not> is_open m p} = interior (grid_size m) - open_paths m"
    by (auto simp: open_paths_def)
  ultimately show ?thesis by (simp add: count_inner_walls_eq)
qed

lemma card_interior: "1 \<le> n \<Longrightarrow> int (card (interior n)) = 2 * n * (n - 1)"
  using distinct_card [OF distinct_interior_list, of n] length_interior_list [of n]
  by (simp add: set_interior_list)

lemma count_plus_open:
  assumes "1 \<le> grid_size m"
  shows "count_inner_walls m + int (card (open_paths m)) = 2 * grid_size m * (grid_size m - 1)"
proof -
  have sub: "open_paths m \<subseteq> interior (grid_size m)" by (auto simp: open_paths_def)
  have "card (interior (grid_size m) - open_paths m) = card (interior (grid_size m)) - card (open_paths m)"
    by (rule card_Diff_subset [OF finite_open_paths sub])
  moreover have "card (open_paths m) \<le> card (interior (grid_size m))"
    by (rule card_mono [OF finite_interior sub])
  ultimately have "card (interior (grid_size m) - open_paths m) + card (open_paths m) = card (interior (grid_size m))"
    by simp
  then have "int (card (interior (grid_size m) - open_paths m)) + int (card (open_paths m))
      = int (card (interior (grid_size m)))" by linarith
  then show ?thesis using card_interior [OF assms] by (simp add: count_inner_walls_card)
qed

section \<open>The freshly constructed maze\<close>

lemma shaped_MazeGenerator: "shaped (MazeGenerator n cs mw out)"
  by (simp add: shaped_def MazeGenerator_def)

lemma entry_replicate:
  "0 \<le> r \<Longrightarrow> nat r < a \<Longrightarrow> 0 \<le> c \<Longrightarrow> nat c < b \<Longrightarrow> entry (replicate a (replicate b v)) r c = v"
  by (simp add: entry_def)

lemma boundary_MazeGenerator: "boundary_intact (MazeGenerator n cs mw out)"
  by (auto simp: boundary_intact_def MazeGenerator_def entry_replicate)

lemma open_paths_MazeGenerator: "open_paths (MazeGenerator n cs mw out) = {}"
  by (auto simp: open_paths_def interior_def is_open_def MazeGenerator_def entry_replicate)

lemma grid_size_MazeGenerator: "grid_size (MazeGenerator n cs mw out) = n"
  by (simp add: MazeGenerator_def)

section \<open>Drawing the start cell\<close>

lemma randbelow_less: "0 < n \<Longrightarrow> fst (randbelow n rs) < n"
  by (simp add: randbelow_def split: list.splits)

lemma randint_range:
  assumes "a \<le> b"
  shows "\<exists>k rs'. randint a b rs = Inr (k, rs') \<and> a \<le> k \<and> k \<le> b"
proof -
  obtain k rs' where r: "randbelow (nat (b - a + 1)) rs = (k, rs')"
    by (cases "randbelow (nat (b - a + 1)) rs")
  from assms have "0 < nat (b - a + 1)" by simp
  from randbelow_less [OF this, of rs] r have "k < nat (b - a + 1)" by simp
  then have "a + int k \<le> b" by linarith
  moreover have "randint a b rs = Inr (a + int k, rs')"
    using assms r by (simp add: randint_def)
  ultimately show ?thesis by simp
qed

section \<open>The carver on the fully walled grid\<close>

definition carved :: "int \<Rightarrow> maze \<Rightarrow> carve_state \<Rightarrow> bool" where
  "carved n m0 s = (case s of (m, visited, rs, entered) \<Rightarrow>
      shaped m \<and> same_config m0 m \<and> boundary_intact m \<and> vshaped n visited \<and>
      visited_cells n visited = cells n \<and>
      card (open_paths m) + 1 = nat n * nat n \<and>
      connected m \<and> distinct entered \<and> set entered = cells n)"

lemma dfs_carve_from_start:
  assumes n: "1 \<le> n" and src: "(sr, sc) \<in> cells n"
  shows "case dfs_carve d sr sc (MazeGenerator n cs mw out,
              replicate (nat n) (replicate (nat n) False), rs, []) of
           Inl e \<Rightarrow> e = RecursionError \<and> d < nat n * nat n
         | Inr s \<Rightarrow> carved n (MazeGenerator n cs mw out) s"
proof -
  let ?m0 = "MazeGenerator n cs mw out"
  let ?v0 = "replicate (nat n) (replicate (nat n) False)"
  let ?s0 = "(?m0, ?v0, rs, [])"
  have g0: "grid_size ?m0 = n" by (rule grid_size_MazeGenerator)
  have V1: "visited_cells n (assign ?v0 sr sc True) = {(sr, sc)}"
    using visited_cells_assign [OF vshaped_replicate src] by (simp add: visited_cells_replicate)
  have inv1: "carve_inv (sr, sc) (?m0, assign ?v0 sr sc True, rs, [] @ [(sr, sc)])"
    unfolding carve_inv_def prod.case g0 V1 open_paths_MazeGenerator
    using shaped_MazeGenerator vshaped_assign [OF vshaped_replicate] boundary_MazeGenerator
    by simp
  have ne: "\<not> entry ?v0 sr sc"
    using src by (simp add: cells_iff entry_replicate)
  have "good d (sr, sc) ?s0 (dfs_carve d sr sc ?s0) {(sr, sc)}"
    using dfs_carve_spec [of d, unfolded carve_spec_def, rule_format, of sr sc ?m0 ?v0 "(sr, sc)" rs "[]"]
      src ne inv1 vshaped_replicate [of n False] g0 by simp
  then have g: "good d (sr, sc) ?s0 (dfs_carve d sr sc ?s0) {(sr, sc)}" .
  have seen0: "seen ?s0 = {}" by (simp add: seen_def g0 visited_cells_replicate)
  show ?thesis
  proof (cases "dfs_carve d sr sc ?s0")
    case (Inl e)
    with g show ?thesis by (simp add: good_def seen0 g0 card_cells)
  next
    case (Inr s)
    obtain m vis rs' entered where s: "s = (m, vis, rs', entered)" by (cases s)
    from g Inr have post: "carve_post (sr, sc) ?s0 s" and in_s: "(sr, sc) \<in> seen s"
      by (simp_all add: good_def)
    from post have inv: "carve_inv (sr, sc) s" and sc: "same_config ?m0 m"
      and cl: "\<forall>a \<in> seen s. nbrs n a \<subseteq> seen s"
      by (simp_all add: carve_post_def seen0 g0 s)
    from sc have gm: "grid_size m = n" by (simp add: same_config_def g0)
    have sub: "seen s \<subseteq> cells n" by (simp add: seen_def s gm visited_cells_subset)
    have all: "seen s = cells n" by (rule closed_is_grid [OF cl in_s sub])
    then have V: "visited_cells n vis = cells n" by (simp add: seen_def s gm)
    from inv have sh: "shaped m" and vs: "vshaped n vis" and bd: "boundary_intact m"
      and re: "\<forall>a \<in> cells n. ((sr, sc), a) \<in> (passage m)\<^sup>*"
      and cd: "card (open_paths m) + 1 = card (cells n)"
      and lg: "distinct entered" "set entered = cells n"
      by (simp_all add: carve_inv_def s gm V)
    have "connected m"
      unfolding connected_def gm
    proof (intro ballI)
      fix a b assume "a \<in> cells n" "b \<in> cells n"
      with re have "((sr, sc), a) \<in> (passage m)\<^sup>*" "((sr, sc), b) \<in> (passage m)\<^sup>*" by simp_all
      then have "(a, (sr, sc)) \<in> (passage m)\<^sup>*" "((sr, sc), b) \<in> (passage m)\<^sup>*"
        by (simp_all add: passage_rtrancl_sym)
      then show "(a, b) \<in> (passage m)\<^sup>*" by (rule rtrancl_trans)
    qed
    with sh sc bd vs V cd lg show ?thesis
      unfolding Inr by (simp add: carved_def s card_cells)
  qed
qed

lemma generate_connected_maze_dfs_cases:
  assumes n: "1 \<le> n"
  shows "case generate_connected_maze_dfs d (MazeGenerator n cs mw out) rs of
           Inl e \<Rightarrow> e = RecursionError \<and> d < nat n * nat n
         | Inr s \<Rightarrow> carved n (MazeGenerator n cs mw out) s"
proof -
  from n have le: "(0::int) \<le> n - 1" by simp
  from randint_range [OF le, of rs] obtain sr rs1
    where r1: "randint 0 (n - 1) rs = Inr (sr, rs1)" and sr: "0 \<le> sr" "sr \<le> n - 1" by blast
  from randint_range [OF le, of rs1] obtain sc rs2
    where r2: "randint 0 (n - 1) rs1 = Inr (sc, rs2)" and sc: "0 \<le> sc" "sc \<le> n - 1" by blast
  from sr sc have src: "(sr, sc) \<in> cells n" by (simp add: cells_iff)
  have "generate_connected_maze_dfs d (MazeGenerator n cs mw out) rs
      = dfs_carve d sr sc (MazeGenerator n cs mw out,
           replicate (nat n) (replicate (nat n) False), rs2, [])"
    by (simp add: generate_connected_maze_dfs_def grid_size_MazeGenerator r1 r2)
  with dfs_carve_from_start [OF n src, of d cs mw out rs2] show ?thesis by simp
qed

lemma carved_counts:
  assumes n: "1 \<le> n" and c: "carved n m0 (m, visited, rs, entered)" and g: "grid_size m0 = n"
  shows "int (length (removable_paths m)) = n * n - 1"
    and "count_inner_walls m = (n - 1) * (n - 1)"
    and "is_all_connected m = Some True"
proof -
  from c g have gm: "grid_size m = n" and cd: "card (open_paths m) + 1 = nat n * nat n"
    and co: "connected m"
    by (simp_all add: carved_def same_config_def)
  from n have "int (nat n * nat n) = n * n" by simp
  with cd have o: "int (card (open_paths m)) = n * n - 1" by linarith
  then show "int (length (removable_paths m)) = n * n - 1"
    by (simp add: length_removable_paths)
  from count_plus_open [of m] n gm o show "count_inner_walls m = (n - 1) * (n - 1)"
    by (simp add: algebra_simps)
  from is_all_connected_connected [of m] n gm co show "is_all_connected m = Some True" by simp
qed

text \<open>
  C2. On the fully walled grid of size \<open>n \<ge> 1\<close>, for every random source: the carver
  returns whenever the interpreter allows \<open>n\<^sup>2\<close> nested calls, and it can fail only by
  exceeding the allowed depth; whenever it returns, exactly \<open>n\<^sup>2 - 1\<close> interior entries
  are cleared (so \<open>(n - 1)\<^sup>2\<close> interior walls remain), every cell is marked visited,
  \<open>_dfs_carve\<close> was entered on every cell exactly once, and the checker returns true.
\<close>

theorem carver_spanning_tree:
  assumes "1 \<le> n"
  shows "(nat n * nat n \<le> depth \<longrightarrow>
            (\<exists>s. generate_connected_maze_dfs depth (MazeGenerator n cs mw out) rs = Inr s)) \<and>
         (\<forall>e. generate_connected_maze_dfs depth (MazeGenerator n cs mw out) rs = Inl e \<longrightarrow>
            e = RecursionError \<and> depth < nat n * nat n) \<and>
         (\<forall>m visited rs' entered.
            generate_connected_maze_dfs depth (MazeGenerator n cs mw out) rs
              = Inr (m, visited, rs', entered) \<longrightarrow>
            int (length (removable_paths m)) = n * n - 1 \<and>
            count_inner_walls m = (n - 1) * (n - 1) \<and>
            (\<forall>row col. 0 \<le> row \<and> row < n \<and> 0 \<le> col \<and> col < n \<longrightarrow> entry visited row col) \<and>
            distinct entered \<and> set entered = cells n \<and>
            is_all_connected m = Some True)"
proof (intro conjI allI impI)
  assume d: "nat n * nat n \<le> depth"
  show "\<exists>s. generate_connected_maze_dfs depth (MazeGenerator n cs mw out) rs = Inr s"
  proof (cases "generate_connected_maze_dfs depth (MazeGenerator n cs mw out) rs")
    case (Inl e)
    with generate_connected_maze_dfs_cases [OF assms, of depth cs mw out rs] d
    show ?thesis by simp
  next
    case (Inr s)
    then show ?thesis by (intro exI)
  qed
next
  fix e assume "generate_connected_maze_dfs depth (MazeGenerator n cs mw out) rs = Inl e"
  with generate_connected_maze_dfs_cases [OF assms, of depth cs mw out rs]
  show "e = RecursionError" "depth < nat n * nat n" by simp_all
next
  fix m visited rs' entered
  assume r: "generate_connected_maze_dfs depth (MazeGenerator n cs mw out) rs
              = Inr (m, visited, rs', entered)"
  with generate_connected_maze_dfs_cases [OF assms, of depth cs mw out rs]
  have c: "carved n (MazeGenerator n cs mw out) (m, visited, rs', entered)" by simp
  note cc = carved_counts [OF assms c grid_size_MazeGenerator]
  show "int (length (removable_paths m)) = n * n - 1" by (rule cc(1))
  show "count_inner_walls m = (n - 1) * (n - 1)" by (rule cc(2))
  show "is_all_connected m = Some True" by (rule cc(3))
  from c show "distinct entered" "set entered = cells n" by (simp_all add: carved_def)
  fix row col assume rc: "0 \<le> row \<and> row < n \<and> 0 \<le> col \<and> col < n"
  from c have "visited_cells n visited = cells n" by (simp add: carved_def)
  moreover from rc have "(row, col) \<in> cells n" by (simp add: cells_iff)
  ultimately show "entry visited row col" by (auto simp: visited_cells_def)
qed

theorem carver_spanning_tree_witness:
  "(1::int) \<le> 2 \<and> nat 2 * nat 2 \<le> (4::nat) \<and>
   (\<exists>m visited rs' entered.
      generate_connected_maze_dfs 4 (MazeGenerator 2 1 0 ''maze.sdf'') [3, 1, 4, 1, 5]
        = Inr (m, visited, rs', entered) \<and>
      int (length (removable_paths m)) = 2 * 2 - 1 \<and>
      count_inner_walls m = (2 - 1) * (2 - 1) \<and>
      entry visited 1 1 \<and>
      distinct entered \<and> set entered = cells 2 \<and>
      is_all_connected m = Some True)"
proof -
  have n: "(1::int) \<le> 2" by simp
  have d: "nat 2 * nat 2 \<le> (4::nat)" by simp
  note t = carver_spanning_tree [OF n, of 4 1 0 "''maze.sdf''" "[3, 1, 4, 1, 5]"]
  from t d obtain s where
    "generate_connected_maze_dfs 4 (MazeGenerator 2 1 0 ''maze.sdf'') [3, 1, 4, 1, 5] = Inr s"
    by blast
  then obtain m visited rs' entered where
    r: "generate_connected_maze_dfs 4 (MazeGenerator 2 1 0 ''maze.sdf'') [3, 1, 4, 1, 5]
          = Inr (m, visited, rs', entered)"
    by (cases s) auto
  from t r have "int (length (removable_paths m)) = 2 * 2 - 1 \<and>
      count_inner_walls m = (2 - 1) * (2 - 1) \<and>
      (\<forall>row col. 0 \<le> row \<and> row < 2 \<and> 0 \<le> col \<and> col < 2 \<longrightarrow> entry visited row col) \<and>
      distinct entered \<and> set entered = cells 2 \<and>
      is_all_connected m = Some True"
    by blast
  then have "int (length (removable_paths m)) = 2 * 2 - 1 \<and>
      count_inner_walls m = (2 - 1) * (2 - 1) \<and>
      entry visited 1 1 \<and>
      distinct entered \<and> set entered = cells 2 \<and>
      is_all_connected m = Some True"
    by simp
  with r n d show ?thesis by blast
qed

section \<open>The densifier\<close>

text \<open>
  The loop over candidates that are distinct and open: it always returns, keeps the shape,
  changes only candidates, raises the wall count by exactly the number of accepted
  candidates, never accepts more than requested, and preserves connectivity and the
  boundary.
\<close>

lemma add_walls_loop_done:
  "num \<le> added \<Longrightarrow> add_walls_loop num ps (m, added) = Some (m, added)"
  by (cases ps) simp_all

lemma add_walls_loop_append:
  "add_walls_loop num (ps @ qs) s =
     (case add_walls_loop num ps s of None \<Rightarrow> None | Some s' \<Rightarrow> add_walls_loop num qs s')"
proof (induction ps arbitrary: s)
  case Nil
  show ?case by (cases s) simp
next
  case (Cons p ps)
  obtain m added where s: "s = (m, added)" by (cases s)
  show ?case
  proof (cases "num \<le> added")
    case True
    then show ?thesis by (simp add: s add_walls_loop_done)
  next
    case False
    then show ?thesis
      by (simp add: s Cons.IH split: option.splits bool.splits)
  qed
qed

lemma add_walls_loop_single:
  assumes "1 \<le> grid_size m" "added < num"
  shows "add_walls_loop num [p] (m, added) =
     (if connected (set_path m p True) then Some (set_path m p True, added + 1)
      else Some (set_path (set_path m p True) p False, added))"
proof -
  have "1 \<le> grid_size (set_path m p True)" using assms(1) by (simp add: grid_size_set_path)
  from is_all_connected_connected [OF this] assms(2) show ?thesis by simp
qed

lemma count_set_path_True:
  assumes sh: "shaped m" and n: "1 \<le> grid_size m" and p: "p \<in> open_paths m"
  shows "count_inner_walls (set_path m p True) = count_inner_walls m + 1"
proof -
  from p have i: "p \<in> interior (grid_size m)" by (simp add: open_paths_def)
  have o: "open_paths (set_path m p True) = open_paths m - {p}"
    by (rule open_paths_set_path_True [OF sh i])
  have "card (open_paths m - {p}) = card (open_paths m) - 1"
    using p by (rule card_Diff_singleton)
  moreover have "0 < card (open_paths m)"
    using p finite_open_paths [of m] card_gt_0_iff by blast
  ultimately have c: "int (card (open_paths m - {p})) = int (card (open_paths m)) - 1" by linarith
  have "count_inner_walls (set_path m p True) + int (card (open_paths m - {p}))
      = 2 * grid_size m * (grid_size m - 1)"
    using count_plus_open [of "set_path m p True"] n by (simp add: grid_size_set_path o)
  with count_plus_open [OF n] c show ?thesis by linarith
qed

lemma add_walls_loop_props:
  assumes "shaped m" "1 \<le> grid_size m" "distinct ps" "set ps \<subseteq> open_paths m"
  shows "\<exists>m' added'. add_walls_loop num ps (m, added) = Some (m', added') \<and>
      shaped m' \<and> same_config m m' \<and>
      open_paths m' \<subseteq> open_paths m \<and> open_paths m - set ps \<subseteq> open_paths m' \<and>
      added \<le> added' \<and> (added' \<le> num \<or> added' = added) \<and>
      count_inner_walls m' = count_inner_walls m + (added' - added) \<and>
      (connected m \<longrightarrow> connected m') \<and> (boundary_intact m \<longrightarrow> boundary_intact m')"
  using assms
proof (induction ps arbitrary: m added)
  case Nil
  then show ?case by (simp add: same_config_refl)
next
  case (Cons p ps)
  show ?case
  proof (cases "num \<le> added")
    case True
    then show ?thesis using Cons.prems(1) by (simp add: add_walls_loop_done same_config_refl)
  next
    case False
    then have lt: "added < num" by simp
    from Cons.prems have p: "p \<in> open_paths m" and ps: "set ps \<subseteq> open_paths m"
      and dps: "distinct ps" and pn: "p \<notin> set ps" by simp_all
    from p have i: "p \<in> interior (grid_size m)" by (simp add: open_paths_def)
    let ?m1 = "set_path m p True"
    have sh1: "shaped ?m1" by (rule shaped_set_path [OF Cons.prems(1)])
    have g1: "1 \<le> grid_size ?m1" using Cons.prems(2) by (simp add: grid_size_set_path)
    have o1: "open_paths ?m1 = open_paths m - {p}"
      by (rule open_paths_set_path_True [OF Cons.prems(1) i])
    have step: "add_walls_loop num (p # ps) (m, added) =
        (case add_walls_loop num [p] (m, added) of None \<Rightarrow> None
         | Some s' \<Rightarrow> add_walls_loop num ps s')"
      using add_walls_loop_append [of num "[p]" ps "(m, added)"] by simp
    show ?thesis
    proof (cases "connected ?m1")
      case True
      have ps1: "set ps \<subseteq> open_paths ?m1" using ps pn by (auto simp: o1)
      from Cons.IH [OF sh1 g1 dps ps1, of "added + 1"] obtain m' added' where
        r: "add_walls_loop num ps (?m1, added + 1) = Some (m', added')"
        and a: "shaped m'" "same_config ?m1 m'" "open_paths m' \<subseteq> open_paths ?m1"
          "open_paths ?m1 - set ps \<subseteq> open_paths m'" "added + 1 \<le> added'"
          "added' \<le> num \<or> added' = added + 1"
          "count_inner_walls m' = count_inner_walls ?m1 + (added' - (added + 1))"
          "connected ?m1 \<longrightarrow> connected m'" "boundary_intact ?m1 \<longrightarrow> boundary_intact m'"
        by blast
      have res: "add_walls_loop num (p # ps) (m, added) = Some (m', added')"
        unfolding step add_walls_loop_single [OF Cons.prems(2) lt] using True r by simp
      have "same_config m m'"
        by (rule same_config_trans [OF same_config_set_path a(2)])
      moreover have "open_paths m' \<subseteq> open_paths m" using a(3) o1 by blast
      moreover have "open_paths m - set (p # ps) \<subseteq> open_paths m'" using a(4) o1 by auto
      moreover have "added \<le> added'" using a(5) by simp
      moreover have "added' \<le> num \<or> added' = added" using a(6) lt by auto
      moreover have "count_inner_walls m' = count_inner_walls m + (added' - added)"
        using a(7) count_set_path_True [OF Cons.prems(1,2) p] by simp
      moreover have "connected m'" using a(8) True by simp
      moreover have "boundary_intact m \<longrightarrow> boundary_intact m'"
        using a(9) boundary_set_path [OF Cons.prems(1) i] by blast
      ultimately show ?thesis using res a(1) by blast
    next
      case False
      have undo: "set_path ?m1 p False = m" by (rule set_path_undo [OF Cons.prems(1) p])
      from Cons.IH [OF Cons.prems(1,2) dps ps, of added] obtain m' added' where
        r: "add_walls_loop num ps (m, added) = Some (m', added')"
        and a: "shaped m'" "same_config m m'" "open_paths m' \<subseteq> open_paths m"
          "open_paths m - set ps \<subseteq> open_paths m'" "added \<le> added'"
          "added' \<le> num \<or> added' = added"
          "count_inner_walls m' = count_inner_walls m + (added' - added)"
          "connected m \<longrightarrow> connected m'" "boundary_intact m \<longrightarrow> boundary_intact m'"
        by blast
      have res: "add_walls_loop num (p # ps) (m, added) = Some (m', added')"
        unfolding step add_walls_loop_single [OF Cons.prems(2) lt] using False r undo by simp
      have "open_paths m - set (p # ps) \<subseteq> open_paths m'" using a(4) by auto
      with res a show ?thesis by blast
    qed
  qed
qed

section \<open>The pipeline on a fresh maze\<close>

lemma shuffled_paths:
  "distinct (fst (shuffle (removable_paths m) rs)) \<and>
   set (fst (shuffle (removable_paths m) rs)) = open_paths m"
  using shuffle_props [of "removable_paths m" rs]
  by (simp add: distinct_removable_paths set_removable_paths)

lemma densifier_prefix:
  assumes sh: "shaped m" and n: "1 \<le> grid_size m"
    and sp: "fst (shuffle (removable_paths m) rs) = pre @ post"
  shows "\<exists>m' added'. add_walls_loop num pre (m, 0) = Some (m', added') \<and>
      shaped m' \<and> same_config m m' \<and>
      open_paths m' \<subseteq> open_paths m \<and> open_paths m - set pre \<subseteq> open_paths m' \<and>
      0 \<le> added' \<and> (added' \<le> num \<or> added' = 0) \<and>
      count_inner_walls m' = count_inner_walls m + added' \<and>
      (connected m \<longrightarrow> connected m') \<and> (boundary_intact m \<longrightarrow> boundary_intact m')"
proof -
  from shuffled_paths [of m rs] sp have "distinct pre" "set pre \<subseteq> open_paths m" by auto
  from add_walls_loop_props [OF sh n this, of num 0] show ?thesis by simp
qed

lemma add_additional_walls_props:
  assumes sh: "shaped m" and n: "1 \<le> grid_size m"
  shows "\<exists>m' rs' added'. add_additional_walls m num rs = Some (m', rs', added', added' < num) \<and>
      shaped m' \<and> same_config m m' \<and> 0 \<le> added' \<and> (added' \<le> num \<or> added' = 0) \<and>
      count_inner_walls m' = count_inner_walls m + added' \<and>
      (connected m \<longrightarrow> connected m') \<and> (boundary_intact m \<longrightarrow> boundary_intact m')"
proof -
  obtain paths rs' where s: "shuffle (removable_paths m) rs = (paths, rs')"
    by (cases "shuffle (removable_paths m) rs")
  then have "fst (shuffle (removable_paths m) rs) = paths @ []" by simp
  from densifier_prefix [OF sh n this, of num] obtain m' added' where
    "add_walls_loop num paths (m, 0) = Some (m', added')" and
    "shaped m' \<and> same_config m m' \<and> 0 \<le> added' \<and> (added' \<le> num \<or> added' = 0) \<and>
      count_inner_walls m' = count_inner_walls m + added' \<and>
      (connected m \<longrightarrow> connected m') \<and> (boundary_intact m \<longrightarrow> boundary_intact m')"
    by blast
  then show ?thesis by (simp add: add_additional_walls_def s)
qed

definition finished :: "int \<Rightarrow> maze \<Rightarrow> maze \<Rightarrow> maze \<Rightarrow> bool" where
  "finished n m0 m1 m2 \<longleftrightarrow> shaped m2 \<and> same_config m0 m2 \<and> connected m2 \<and> boundary_intact m2 \<and>
     count_inner_walls m1 \<le> count_inner_walls m2 \<and>
     count_inner_walls m2 \<le> max (min_walls m0) (count_inner_walls m1)"

lemma generate_maze_after_carving:
  assumes n: "1 \<le> n"
    and c: "generate_connected_maze_dfs depth (MazeGenerator n cs mw out) rs = Inr (m1, vis, rs1, entered)"
  shows "\<exists>m2 rs2. generate_maze depth (MazeGenerator n cs mw out) rs
            = Some (Inr (convert_to_3d_walls m2, m2, rs2)) \<and>
          finished n (MazeGenerator n cs mw out) m1 m2 \<and>
          (min_walls (MazeGenerator n cs mw out) \<le> count_inner_walls m1 \<longrightarrow> m2 = m1 \<and> rs2 = rs1)"
proof -
  let ?m0 = "MazeGenerator n cs mw out"
  from generate_connected_maze_dfs_cases [OF n, of depth cs mw out rs] c
  have cv: "carved n ?m0 (m1, vis, rs1, entered)" by simp
  then have sh: "shaped m1" and sc: "same_config ?m0 m1" and bd: "boundary_intact m1"
    and co: "connected m1" by (simp_all add: carved_def)
  from sc have g1: "grid_size m1 = n" and mw1: "min_walls m1 = min_walls ?m0"
    by (simp_all add: same_config_def grid_size_MazeGenerator)
  show ?thesis
  proof (cases "count_inner_walls m1 < min_walls m1")
    case True
    from n g1 have n1: "1 \<le> grid_size m1" by simp
    from add_additional_walls_props [OF sh n1, of "min_walls m1 - count_inner_walls m1" rs1]
    obtain m2 rs2 added where
      r: "add_additional_walls m1 (min_walls m1 - count_inner_walls m1) rs1
            = Some (m2, rs2, added, added < min_walls m1 - count_inner_walls m1)"
      and a: "shaped m2" "same_config m1 m2" "0 \<le> added"
        "added \<le> min_walls m1 - count_inner_walls m1 \<or> added = 0"
        "count_inner_walls m2 = count_inner_walls m1 + added"
        "connected m1 \<longrightarrow> connected m2" "boundary_intact m1 \<longrightarrow> boundary_intact m2"
      by blast
    have "generate_maze depth ?m0 rs = Some (Inr (convert_to_3d_walls m2, m2, rs2))"
      using c True r by (simp add: generate_maze_def)
    moreover have "finished n ?m0 m1 m2"
      unfolding finished_def using a co bd same_config_trans [OF sc a(2)] mw1 True by auto
    ultimately show ?thesis using True mw1 by auto
  next
    case False
    have "generate_maze depth ?m0 rs = Some (Inr (convert_to_3d_walls m1, m1, rs1))"
      using c False by (simp add: generate_maze_def)
    moreover have "finished n ?m0 m1 m1"
      unfolding finished_def using sh sc co bd by simp
    ultimately show ?thesis by blast
  qed
qed

lemma generate_maze_returns:
  assumes n: "1 \<le> n" and d: "nat n * nat n \<le> depth"
  shows "\<exists>m1 vis rs1 entered m2 rs2.
      generate_connected_maze_dfs depth (MazeGenerator n cs mw out) rs = Inr (m1, vis, rs1, entered) \<and>
      generate_maze depth (MazeGenerator n cs mw out) rs = Some (Inr (convert_to_3d_walls m2, m2, rs2)) \<and>
      finished n (MazeGenerator n cs mw out) m1 m2"
proof -
  from generate_connected_maze_dfs_cases [OF n, of depth cs mw out rs] d
  obtain s where "generate_connected_maze_dfs depth (MazeGenerator n cs mw out) rs = Inr s"
    by (cases "generate_connected_maze_dfs depth (MazeGenerator n cs mw out) rs") auto
  then obtain m1 vis rs1 entered where
    c: "generate_connected_maze_dfs depth (MazeGenerator n cs mw out) rs = Inr (m1, vis, rs1, entered)"
    by (cases s) auto
  from generate_maze_after_carving [OF n c] c show ?thesis by blast
qed

lemma generate_maze_result:
  assumes n: "1 \<le> n"
    and g: "generate_maze depth (MazeGenerator n cs mw out) rs = Some (Inr (walls, m2, rs2))"
  shows "\<exists>m1 vis rs1 entered.
      generate_connected_maze_dfs depth (MazeGenerator n cs mw out) rs = Inr (m1, vis, rs1, entered) \<and>
      walls = convert_to_3d_walls m2 \<and> finished n (MazeGenerator n cs mw out) m1 m2 \<and>
      (min_walls (MazeGenerator n cs mw out) \<le> count_inner_walls m1 \<longrightarrow> m2 = m1 \<and> rs2 = rs1)"
proof (cases "generate_connected_maze_dfs depth (MazeGenerator n cs mw out) rs")
  case (Inl e)
  with g show ?thesis by (simp add: generate_maze_def)
next
  case (Inr s)
  obtain m1 vis rs1 entered where s: "s = (m1, vis, rs1, entered)" by (cases s)
  from generate_maze_after_carving [OF n Inr [unfolded s]] g Inr s show ?thesis by auto
qed

text \<open>
  C1. For every \<open>n \<ge> 1\<close>: the maze the carver returns is connected; during
  densification the maze after any number of processed candidates (hence after every
  accepted addition) is connected; and the maze \<open>generate_maze\<close> hands to the projector is
  connected. Connected means: every two cells are joined by a chain of open interior entries.
\<close>

theorem connectivity_invariant:
  assumes "1 \<le> n"
  shows "(\<forall>m1 vis rs1 entered.
            generate_connected_maze_dfs depth (MazeGenerator n cs mw out) rs
              = Inr (m1, vis, rs1, entered) \<longrightarrow>
            connected m1 \<and>
            (\<forall>num pre post. fst (shuffle (removable_paths m1) rs1) = pre @ post \<longrightarrow>
               (\<exists>m' added. add_walls_loop num pre (m1, 0) = Some (m', added) \<and> connected m'))) \<and>
         (\<forall>walls m2 rs2.
            generate_maze depth (MazeGenerator n cs mw out) rs = Some (Inr (walls, m2, rs2)) \<longrightarrow>
            connected m2)"
proof (intro conjI allI impI)
  fix m1 vis rs1 entered
  assume c: "generate_connected_maze_dfs depth (MazeGenerator n cs mw out) rs
              = Inr (m1, vis, rs1, entered)"
  with generate_connected_maze_dfs_cases [OF assms, of depth cs mw out rs]
  have cv: "carved n (MazeGenerator n cs mw out) (m1, vis, rs1, entered)" by simp
  then show co: "connected m1" by (simp add: carved_def)
  fix num pre post
  assume sp: "fst (shuffle (removable_paths m1) rs1) = pre @ post"
  from cv have sh: "shaped m1" and g: "1 \<le> grid_size m1"
    using assms by (simp_all add: carved_def same_config_def grid_size_MazeGenerator)
  from densifier_prefix [OF sh g sp, of num] co
  show "\<exists>m' added. add_walls_loop num pre (m1, 0) = Some (m', added) \<and> connected m'"
    by blast
next
  fix walls m2 rs2
  assume "generate_maze depth (MazeGenerator n cs mw out) rs = Some (Inr (walls, m2, rs2))"
  from generate_maze_result [OF assms this] show "connected m2"
    by (auto simp: finished_def)
qed

theorem connectivity_invariant_witness:
  "(1::int) \<le> 2 \<and>
   (\<exists>walls m2 rs2.
      generate_maze 4 (MazeGenerator 2 1 2 ''maze.sdf'') [] = Some (Inr (walls, m2, rs2)) \<and>
      connected m2)"
proof -
  have n: "(1::int) \<le> 2" by simp
  have d: "nat 2 * nat 2 \<le> (4::nat)" by simp
  from generate_maze_returns [OF n d, of 1 2 "''maze.sdf''" "[]"] obtain walls m2 rs2 where
    g: "generate_maze 4 (MazeGenerator 2 1 2 ''maze.sdf'') [] = Some (Inr (walls, m2, rs2))"
    by blast
  with connectivity_invariant [OF n, of 4 1 2 "''maze.sdf''" "[]"] have "connected m2" by blast
  with g n show ?thesis by blast
qed

text \<open>
  C4. For every \<open>n \<ge> 1\<close> all boundary entries (rows \<open>0\<close> and \<open>n\<close> of the horizontal
  matrix, columns \<open>0\<close> and \<open>n\<close> of the vertical matrix) are true in the constructed maze,
  in the maze the carver returns, in the maze after any number of processed densifier
  candidates, and in the maze that is projected. The projector does not write.
\<close>

theorem boundary_never_cleared:
  assumes "1 \<le> n"
  shows "boundary_intact (MazeGenerator n cs mw out) \<and>
         (\<forall>m1 vis rs1 entered.
            generate_connected_maze_dfs depth (MazeGenerator n cs mw out) rs
              = Inr (m1, vis, rs1, entered) \<longrightarrow>
            boundary_intact m1 \<and>
            (\<forall>num pre post. fst (shuffle (removable_paths m1) rs1) = pre @ post \<longrightarrow>
               (\<exists>m' added. add_walls_loop num pre (m1, 0) = Some (m', added) \<and>
                  boundary_intact m'))) \<and>
         (\<forall>walls m2 rs2.
            generate_maze depth (MazeGenerator n cs mw out) rs = Some (Inr (walls, m2, rs2)) \<longrightarrow>
            boundary_intact m2)"
proof (intro conjI allI impI)
  show "boundary_intact (MazeGenerator n cs mw out)" by (rule boundary_MazeGenerator)
next
  fix m1 vis rs1 entered
  assume c: "generate_connected_maze_dfs depth (MazeGenerator n cs mw out) rs
              = Inr (m1, vis, rs1, entered)"
  with generate_connected_maze_dfs_cases [OF assms, of depth cs mw out rs]
  have cv: "carved n (MazeGenerator n cs mw out) (m1, vis, rs1, entered)" by simp
  then show bd: "boundary_intact m1" by (simp add: carved_def)
  fix num pre post
  assume sp: "fst (shuffle (removable_paths m1) rs1) = pre @ post"
  from cv have sh: "shaped m1" and g: "1 \<le> grid_size m1"
    using assms by (simp_all add: carved_def same_config_def grid_size_MazeGenerator)
  from densifier_prefix [OF sh g sp, of num] bd
  show "\<exists>m' added. add_walls_loop num pre (m1, 0) = Some (m', added) \<and> boundary_intact m'"
    by blast
next
  fix walls m2 rs2
  assume "generate_maze depth (MazeGenerator n cs mw out) rs = Some (Inr (walls, m2, rs2))"
  from generate_maze_result [OF assms this] show "boundary_intact m2"
    by (auto simp: finished_def)
qed

theorem boundary_never_cleared_witness:
  "(1::int) \<le> 2 \<and> boundary_intact (MazeGenerator 2 1 2 ''maze.sdf'') \<and>
   (\<exists>walls m2 rs2.
      generate_maze 4 (MazeGenerator 2 1 2 ''maze.sdf'') [] = Some (Inr (walls, m2, rs2)) \<and>
      boundary_intact m2)"
proof -
  have n: "(1::int) \<le> 2" by simp
  have d: "nat 2 * nat 2 \<le> (4::nat)" by simp
  note t = boundary_never_cleared [OF n, of 1 2 "''maze.sdf''" 4 "[]"]
  from generate_maze_returns [OF n d, of 1 2 "''maze.sdf''" "[]"] obtain walls m2 rs2 where
    g: "generate_maze 4 (MazeGenerator 2 1 2 ''maze.sdf'') [] = Some (Inr (walls, m2, rs2))"
    by blast
  with t have "boundary_intact m2" by blast
  with g n t show ?thesis by blast
qed

text \<open>
  C5. Take any maze of the allocated shape with \<open>grid_size \<ge> 1\<close>, and the shuffled
  candidate list of the densifier on it. When the loop has processed the candidates
  \<open>pre\<close>, reaching maze \<open>m\<close> and counter \<open>added < num\<close>, processing the next candidate \<open>p\<close>
  ends in one of two ways: the entry of \<open>p\<close> is a wall, the checker returns true on the
  new maze (which is connected), and the counter is \<open>added + 1\<close>; or the entry of \<open>p\<close> is
  open again and the maze and the counter are exactly \<open>m\<close> and \<open>added\<close>.
\<close>

theorem candidate_atomic:
  assumes "shaped m0" and "1 \<le> grid_size m0"
    and "fst (shuffle (removable_paths m0) rs) = pre @ p # post"
    and "add_walls_loop num pre (m0, 0) = Some (m, added)" and "added < num"
  shows "\<exists>m' added'. add_walls_loop num (pre @ [p]) (m0, 0) = Some (m', added') \<and>
     ((\<not> is_open m' p \<and> m' = set_path m p True \<and> is_all_connected m' = Some True \<and>
       connected m' \<and> added' = added + 1) \<or>
      (is_open m' p \<and> m' = m \<and> added' = added))"
proof -
  from densifier_prefix [OF assms(1,2,3), of num] assms(4)
  have sh: "shaped m" and sc: "same_config m0 m"
    and op: "open_paths m0 - set pre \<subseteq> open_paths m" by auto
  from sc assms(2) have g: "1 \<le> grid_size m" by (simp add: same_config_def)
  from shuffled_paths [of m0 rs] assms(3) have "p \<in> open_paths m0" "p \<notin> set pre" by auto
  with op have p: "p \<in> open_paths m" by blast
  then have i: "p \<in> interior (grid_size m)" and o: "is_open m p" by (simp_all add: open_paths_def)
  have step: "add_walls_loop num (pre @ [p]) (m0, 0) = add_walls_loop num [p] (m, added)"
    by (simp add: add_walls_loop_append assms(4))
  show ?thesis
  proof (cases "connected (set_path m p True)")
    case True
    have "\<not> is_open (set_path m p True) p"
      using is_open_set_path [OF sh i i, of True] by simp
    moreover have "is_all_connected (set_path m p True) = Some True"
      using is_all_connected_connected [of "set_path m p True"] g True
      by (simp add: grid_size_set_path)
    moreover have "add_walls_loop num (pre @ [p]) (m0, 0) = Some (set_path m p True, added + 1)"
      unfolding step add_walls_loop_single [OF g assms(5)] using True by simp
    ultimately show ?thesis using True by blast
  next
    case False
    have "add_walls_loop num (pre @ [p]) (m0, 0) = Some (m, added)"
      unfolding step add_walls_loop_single [OF g assms(5)]
      using False set_path_undo [OF sh p] by simp
    with o show ?thesis by blast
  qed
qed

theorem candidate_atomic_witness:
  "shaped (set_path (MazeGenerator 2 1 0 ''maze.sdf'') (CHR ''h'', 1, 0) False) \<and>
   1 \<le> grid_size (set_path (MazeGenerator 2 1 0 ''maze.sdf'') (CHR ''h'', 1, 0) False) \<and>
   fst (shuffle (removable_paths (set_path (MazeGenerator 2 1 0 ''maze.sdf'') (CHR ''h'', 1, 0) False)) [])
     = [] @ (CHR ''h'', 1, 0) # [] \<and>
   add_walls_loop 1 [] (set_path (MazeGenerator 2 1 0 ''maze.sdf'') (CHR ''h'', 1, 0) False, 0)
     = Some (set_path (MazeGenerator 2 1 0 ''maze.sdf'') (CHR ''h'', 1, 0) False, 0) \<and>
   (0::int) < 1 \<and>
   (\<exists>m' added'.
      add_walls_loop 1 ([] @ [(CHR ''h'', 1, 0)])
        (set_path (MazeGenerator 2 1 0 ''maze.sdf'') (CHR ''h'', 1, 0) False, 0) = Some (m', added') \<and>
      ((\<not> is_open m' (CHR ''h'', 1, 0) \<and>
        m' = set_path (set_path (MazeGenerator 2 1 0 ''maze.sdf'') (CHR ''h'', 1, 0) False)
               (CHR ''h'', 1, 0) True \<and>
        is_all_connected m' = Some True \<and> connected m' \<and> added' = 0 + 1) \<or>
       (is_open m' (CHR ''h'', 1, 0) \<and>
        m' = set_path (MazeGenerator 2 1 0 ''maze.sdf'') (CHR ''h'', 1, 0) False \<and> added' = 0)))"
proof -
  let ?W = "set_path (MazeGenerator 2 1 0 ''maze.sdf'') (CHR ''h'', 1, 0) False"
  have h1: "shaped ?W" by (rule shaped_set_path [OF shaped_MazeGenerator])
  have h2: "1 \<le> grid_size ?W" by (simp add: grid_size_set_path grid_size_MazeGenerator)
  have h3: "fst (shuffle (removable_paths ?W) []) = [] @ (CHR ''h'', 1, 0) # []"
    by code_simp
  have h4: "add_walls_loop 1 [] (?W, 0) = Some (?W, 0)" by simp
  have h5: "(0::int) < 1" by simp
  from candidate_atomic [OF h1 h2 h3 h4 h5] h1 h2 h3 h4 h5 show ?thesis by blast
qed

text \<open>
  C6, as the code has it. For every \<open>n \<ge> 1\<close> and every \<open>min_walls\<close>: once the carver has
  returned, \<open>generate_maze\<close> returns; the final interior wall count is at least the count
  after carving and at most the larger of \<open>min_walls\<close> and the count after carving; the
  final maze is connected, and so is the maze after any number of processed candidates.
  (When the count after carving already reaches \<open>min_walls\<close> the densifier is not run, so
  the final count can exceed \<open>min_walls\<close>.)
\<close>

theorem densification_bounds:
  assumes "1 \<le> n"
  shows "\<forall>m1 vis rs1 entered.
           generate_connected_maze_dfs depth (MazeGenerator n cs mw out) rs
             = Inr (m1, vis, rs1, entered) \<longrightarrow>
           (\<exists>walls m2 rs2.
              generate_maze depth (MazeGenerator n cs mw out) rs = Some (Inr (walls, m2, rs2)) \<and>
              count_inner_walls m1 \<le> count_inner_walls m2 \<and>
              count_inner_walls m2 \<le> max mw (count_inner_walls m1) \<and>
              connected m2) \<and>
           (\<forall>num pre post. fst (shuffle (removable_paths m1) rs1) = pre @ post \<longrightarrow>
              (\<exists>m' added. add_walls_loop num pre (m1, 0) = Some (m', added) \<and>
                 count_inner_walls m' = count_inner_walls m1 + added \<and> connected m'))"
proof (intro conjI allI impI)
  fix m1 vis rs1 entered
  assume c: "generate_connected_maze_dfs depth (MazeGenerator n cs mw out) rs
              = Inr (m1, vis, rs1, entered)"
  from generate_maze_after_carving [OF assms c]
  show "\<exists>walls m2 rs2.
          generate_maze depth (MazeGenerator n cs mw out) rs = Some (Inr (walls, m2, rs2)) \<and>
          count_inner_walls m1 \<le> count_inner_walls m2 \<and>
          count_inner_walls m2 \<le> max mw (count_inner_walls m1) \<and>
          connected m2"
    by (auto simp: finished_def MazeGenerator_def)
  fix num pre post
  assume sp: "fst (shuffle (removable_paths m1) rs1) = pre @ post"
  from c generate_connected_maze_dfs_cases [OF assms, of depth cs mw out rs]
  have cv: "carved n (MazeGenerator n cs mw out) (m1, vis, rs1, entered)" by simp
  then have sh: "shaped m1" and g: "1 \<le> grid_size m1" and co: "connected m1"
    using assms by (simp_all add: carved_def same_config_def grid_size_MazeGenerator)
  from densifier_prefix [OF sh g sp, of num] co
  show "\<exists>m' added. add_walls_loop num pre (m1, 0) = Some (m', added) \<and>
          count_inner_walls m' = count_inner_walls m1 + added \<and> connected m'"
    by blast
qed

theorem densification_bounds_witness:
  "(1::int) \<le> 2 \<and>
   (\<exists>m1 vis rs1 entered walls m2 rs2.
      generate_connected_maze_dfs 4 (MazeGenerator 2 1 2 ''maze.sdf'') [] = Inr (m1, vis, rs1, entered) \<and>
      generate_maze 4 (MazeGenerator 2 1 2 ''maze.sdf'') [] = Some (Inr (walls, m2, rs2)) \<and>
      count_inner_walls m1 \<le> count_inner_walls m2 \<and>
      count_inner_walls m2 \<le> max 2 (count_inner_walls m1) \<and>
      connected m2)"
proof -
  have n: "(1::int) \<le> 2" by simp
  have d: "nat 2 * nat 2 \<le> (4::nat)" by simp
  from generate_maze_returns [OF n d, of 1 2 "''maze.sdf''" "[]"] obtain m1 vis rs1 entered where
    c: "generate_connected_maze_dfs 4 (MazeGenerator 2 1 2 ''maze.sdf'') [] = Inr (m1, vis, rs1, entered)"
    by blast
  from densification_bounds [OF n, of 4 1 2 "''maze.sdf''" "[]"] c
  have "\<exists>walls m2 rs2.
      generate_maze 4 (MazeGenerator 2 1 2 ''maze.sdf'') [] = Some (Inr (walls, m2, rs2)) \<and>
      count_inner_walls m1 \<le> count_inner_walls m2 \<and>
      count_inner_walls m2 \<le> max 2 (count_inner_walls m1) \<and>
      connected m2"
    by blast
  with c n show ?thesis by blast
qed

theorem densification_bounds_counterexample:
  "(case generate_maze 4 (MazeGenerator 2 1 0 ''maze.sdf'') [] of
      Some (Inr (walls, m, rs')) \<Rightarrow>
        count_inner_walls m = 1 \<and> min_walls m = 0 \<and> \<not> count_inner_walls m \<le> min_walls m
    | _ \<Rightarrow> False)"
  by code_simp

text \<open>
  C7, as the code has it. Nothing validates the configuration. A run with
  \<open>grid_size \<le> 0\<close> raises \<open>ValueError\<close> when the carver draws its start cell, before any
  wall is carved, added or projected. A run with \<open>grid_size \<ge> 1\<close> is never rejected for
  its configuration, whatever the cell size and \<open>min_walls\<close> are, non-positive and negative
  values included: it returns its descriptors, or the carver's recursion exceeds the depth
  the interpreter allows and \<open>RecursionError\<close> is raised, which happens only when fewer
  than \<open>grid_size\<^sup>2\<close> nested calls are allowed. In particular it returns whenever
  \<open>grid_size\<^sup>2\<close> nested calls are allowed.
\<close>

theorem configuration_not_validated:
  "(size_arg \<le> 0 \<longrightarrow> main depth size_arg cs mw out rs = Some (Inl ValueError)) \<and>
   (1 \<le> size_arg \<longrightarrow>
      (\<exists>walls m rs'. main depth size_arg cs mw out rs = Some (Inr (walls, m, rs'))) \<or>
      (main depth size_arg cs mw out rs = Some (Inl RecursionError) \<and>
       depth < nat size_arg * nat size_arg)) \<and>
   (1 \<le> size_arg \<and> nat size_arg * nat size_arg \<le> depth \<longrightarrow>
      (\<exists>walls m rs'. main depth size_arg cs mw out rs = Some (Inr (walls, m, rs'))))"
proof (intro conjI impI)
  assume "size_arg \<le> 0"
  then have "randint 0 (size_arg - 1) rs = Inl ValueError" by (simp add: randint_def)
  then show "main depth size_arg cs mw out rs = Some (Inl ValueError)"
    by (simp add: main_def generate_maze_def generate_connected_maze_dfs_def grid_size_MazeGenerator)
next
  assume n: "1 \<le> size_arg"
  show "(\<exists>walls m rs'. main depth size_arg cs mw out rs = Some (Inr (walls, m, rs'))) \<or>
      (main depth size_arg cs mw out rs = Some (Inl RecursionError) \<and>
       depth < nat size_arg * nat size_arg)"
  proof (cases "generate_connected_maze_dfs depth (MazeGenerator size_arg cs mw out) rs")
    case (Inl e)
    with generate_connected_maze_dfs_cases [OF n, of depth cs mw out rs]
    have "e = RecursionError" and "depth < nat size_arg * nat size_arg" by simp_all
    moreover from Inl have "main depth size_arg cs mw out rs = Some (Inl e)"
      by (simp add: main_def generate_maze_def)
    ultimately show ?thesis by simp
  next
    case (Inr s)
    obtain m1 vis rs1 entered where s: "s = (m1, vis, rs1, entered)" by (cases s)
    from generate_maze_after_carving [OF n Inr [unfolded s]]
    show ?thesis unfolding main_def by blast
  qed
next
  assume a: "1 \<le> size_arg \<and> nat size_arg * nat size_arg \<le> depth"
  then have n: "1 \<le> size_arg" and d: "nat size_arg * nat size_arg \<le> depth" by simp_all
  from generate_maze_returns [OF n d, of cs mw out rs]
  show "\<exists>walls m rs'. main depth size_arg cs mw out rs = Some (Inr (walls, m, rs'))"
    unfolding main_def by blast
qed

theorem configuration_not_validated_witness:
  "(-1::int) \<le> 0 \<and> main 10 (-1) 1 5 ''maze.sdf'' [] = Some (Inl ValueError) \<and>
   (1::int) \<le> 1 \<and> nat 1 * nat 1 \<le> (10::nat) \<and>
   (\<exists>walls m rs'. main 10 1 (-1) (-5) ''maze.sdf'' [] = Some (Inr (walls, m, rs')))"
proof -
  have a: "(-1::int) \<le> 0" by simp
  have b: "(1::int) \<le> 1 \<and> nat 1 * nat 1 \<le> (10::nat)" by simp
  from configuration_not_validated [of "-1" 10 1 5 "''maze.sdf''" "[]"] a
  have "main 10 (-1) 1 5 ''maze.sdf'' [] = Some (Inl ValueError)" by blast
  moreover from configuration_not_validated [of 1 10 "-1" "-5" "''maze.sdf''" "[]"] b
  have "\<exists>walls m rs'. main 10 1 (-1) (-5) ''maze.sdf'' [] = Some (Inr (walls, m, rs'))" by blast
  ultimately show ?thesis using a b by blast
qed

theorem configuration_not_validated_counterexample:
  "(case main 10 1 (-1) (-5) ''maze.sdf'' [] of
      Some (Inr (walls, m, rs')) \<Rightarrow> length walls = 4 \<and> cell_size m = -1 \<and> min_walls m = -5
    | _ \<Rightarrow> False)"
  by code_simp

section \<open>Number of projected walls\<close>

lemma length_filter_all: "\<forall>x \<in> set xs. P x \<Longrightarrow> length (filter P xs) = length xs"
  by (induction xs) simp_all

lemma length_filter_product_rows:
  "length (filter P (List.product (a # xs @ [b]) ys)) =
     length (filter (\<lambda>y. P (a, y)) ys) + length (filter P (List.product xs ys)) +
     length (filter (\<lambda>y. P (b, y)) ys)"
proof -
  have "List.product (xs @ [b]) ys = List.product xs ys @ map (Pair b) ys"
    by (induction xs) simp_all
  then show ?thesis by (simp add: filter_map comp_def)
qed

lemma length_filter_product_cols:
  "length (filter P (List.product xs (a # ys @ [b]))) =
     length (filter (\<lambda>x. P (x, a)) xs) + length (filter P (List.product xs ys)) +
     length (filter (\<lambda>x. P (x, b)) xs)"
  by (induction xs) (simp_all add: filter_map comp_def)

lemma upto_ends: "1 \<le> n \<Longrightarrow> [0..n] = 0 # [1..n - 1] @ [n]"
proof -
  assume n: "(1::int) \<le> n"
  then have "[0..n] = 0 # [0 + 1..n]" by (intro upto_rec1) simp
  moreover have "[1..n] = [1..n - 1] @ [n]" using n by (intro upto_rec2) simp
  ultimately show ?thesis by simp
qed

lemma length_convert_to_3d_walls:
  assumes n: "1 \<le> grid_size m" and b: "boundary_intact m"
  shows "int (length (convert_to_3d_walls m)) = 4 * grid_size m + count_inner_walls m"
proof -
  let ?n = "grid_size m"
  let ?H = "\<lambda>(row, col). entry (horizontal_walls m) row col"
  let ?V = "\<lambda>(row, col). entry (vertical_walls m) row col"
  have len: "length [0..?n - 1] = nat ?n" by simp
  have h0: "length (filter (\<lambda>y. ?H (0, y)) [0..?n - 1]) = nat ?n"
    using b len by (subst length_filter_all) (auto simp: boundary_intact_def)
  have hn: "length (filter (\<lambda>y. ?H (?n, y)) [0..?n - 1]) = nat ?n"
    using b len by (subst length_filter_all) (auto simp: boundary_intact_def)
  have v0: "length (filter (\<lambda>x. ?V (x, 0)) [0..?n - 1]) = nat ?n"
    using b len by (subst length_filter_all) (auto simp: boundary_intact_def)
  have vn: "length (filter (\<lambda>x. ?V (x, ?n)) [0..?n - 1]) = nat ?n"
    using b len by (subst length_filter_all) (auto simp: boundary_intact_def)
  have H: "length (filter ?H (List.product [0..?n] [0..?n - 1]))
      = nat ?n + length (filter ?H (List.product [1..?n - 1] [0..?n - 1])) + nat ?n"
    unfolding upto_ends [OF n] length_filter_product_rows h0 hn ..
  have V: "length (filter ?V (List.product [0..?n - 1] [0..?n]))
      = nat ?n + length (filter ?V (List.product [0..?n - 1] [1..?n - 1])) + nat ?n"
    unfolding upto_ends [OF n] length_filter_product_cols v0 vn ..
  have c: "count_inner_walls m =
      int (length (filter ?H (List.product [1..?n - 1] [0..?n - 1]))) +
      int (length (filter ?V (List.product [0..?n - 1] [1..?n - 1])))"
    unfolding count_inner_walls_def Let_def fold_fold_count_if by simp
  have "int (length (convert_to_3d_walls m)) =
      int (length (filter ?H (List.product [0..?n] [0..?n - 1]))) +
      int (length (filter ?V (List.product [0..?n - 1] [0..?n])))"
    unfolding convert_to_3d_walls_eq by simp
  with H V c n show ?thesis by simp
qed

text \<open>
  C8, as the code has it. With \<open>grid_size = 5\<close> and \<open>min_walls = 0\<close>, for every random
  source: the run returns whenever the interpreter allows 25 nested calls; whenever it
  returns, the maze and random source it returns are those the carver left (the densifier
  did nothing), 16 interior walls remain (40 interior entries minus the 24 cleared), and
  the output has exactly 36 descriptors: 20 boundary walls plus 16 interior walls.
\<close>

theorem five_by_five_wall_count:
  "(25 \<le> depth \<longrightarrow> (\<exists>walls m rs'. main depth 5 cs 0 out rs = Some (Inr (walls, m, rs')))) \<and>
   (\<forall>walls m rs'. main depth 5 cs 0 out rs = Some (Inr (walls, m, rs')) \<longrightarrow>
      length walls = 36 \<and> count_inner_walls m = 16 \<and>
      int (length (removable_paths m)) = 24 \<and>
      (\<exists>vis entered.
         generate_connected_maze_dfs depth (MazeGenerator 5 cs 0 out) rs = Inr (m, vis, rs', entered)))"
proof (intro conjI allI impI)
  have n: "(1::int) \<le> 5" by simp
  assume "25 \<le> depth"
  then have d: "nat 5 * nat 5 \<le> depth" by simp
  from generate_maze_returns [OF n d, of cs 0 out rs]
  show "\<exists>walls m rs'. main depth 5 cs 0 out rs = Some (Inr (walls, m, rs'))"
    unfolding main_def by blast
next
  fix walls m rs'
  have n: "(1::int) \<le> 5" by simp
  assume "main depth 5 cs 0 out rs = Some (Inr (walls, m, rs'))"
  then have g: "generate_maze depth (MazeGenerator 5 cs 0 out) rs = Some (Inr (walls, m, rs'))"
    by (simp add: main_def)
  from generate_maze_result [OF n g] obtain m1 vis rs1 entered where
    c: "generate_connected_maze_dfs depth (MazeGenerator 5 cs 0 out) rs = Inr (m1, vis, rs1, entered)"
    and w: "walls = convert_to_3d_walls m"
    and f: "finished 5 (MazeGenerator 5 cs 0 out) m1 m"
    and e: "min_walls (MazeGenerator 5 cs 0 out) \<le> count_inner_walls m1 \<longrightarrow> m = m1 \<and> rs' = rs1"
    by blast
  from c generate_connected_maze_dfs_cases [OF n, of depth cs 0 out rs]
  have cv: "carved 5 (MazeGenerator 5 cs 0 out) (m1, vis, rs1, entered)" by simp
  note cc = carved_counts [OF n cv grid_size_MazeGenerator]
  from cc(2) e have same: "m = m1" "rs' = rs1" by (simp_all add: MazeGenerator_def)
  from cc(2) same show "count_inner_walls m = 16" by simp
  from cc(1) same show "int (length (removable_paths m)) = 24" by simp
  from c same show "\<exists>vis entered.
      generate_connected_maze_dfs depth (MazeGenerator 5 cs 0 out) rs = Inr (m, vis, rs', entered)"
    by blast
  from f have b: "boundary_intact m" and g5: "grid_size m = 5"
    by (simp_all add: finished_def same_config_def grid_size_MazeGenerator)
  from length_convert_to_3d_walls [of m] b g5 cc(2) same
  have "int (length (convert_to_3d_walls m)) = 36" by simp
  with w show "length walls = 36" by simp
qed

theorem five_by_five_wall_count_witness:
  "(25::nat) \<le> 25 \<and>
   (\<exists>walls m rs'. main 25 5 1 0 ''maze.sdf'' [] = Some (Inr (walls, m, rs')) \<and>
      length walls = 36 \<and> count_inner_walls m = 16)"
proof -
  have d: "(25::nat) \<le> 25" by simp
  note t = five_by_five_wall_count [of 25 1 "''maze.sdf''" "[]"]
  from t d obtain walls m rs' where
    g: "main 25 5 1 0 ''maze.sdf'' [] = Some (Inr (walls, m, rs'))" by blast
  with t have "length walls = 36 \<and> count_inner_walls m = 16" by blast
  with g d show ?thesis by blast
qed

theorem five_by_five_wall_count_counterexample:
  "(case main 25 5 1 0 ''maze.sdf'' [] of
      Some (Inr (walls, m, rs')) \<Rightarrow> length walls = 36 \<and> length walls \<noteq> 44
    | _ \<Rightarrow> False)"
  by code_simp

end
